theory Spec2Isabelle
  imports Complex_Main
begin

section \<open>Arrays, masks and errors\<close>

text \<open>
  A two-dimensional numpy array is a list of rows.  Images and network outputs hold
  floats, which are only ever compared with the constant one half, so they are
  reals here; masks hold the \<open>uint8\<close> values 0 and 1.  The shape of an array
  with no rows has no columns in this representation.
\<close>

type_synonym image = "real list list"
type_synonym mask = "nat list list"

datatype py_error =
    SegmentationIncomplete nat
  | IndexError
  | AttributeError
  | TypeError
  | ShapeMismatch
  | HelperError

definition shape :: "'a list list \<Rightarrow> nat \<times> nat" where
  "shape a = (length a, case a of [] \<Rightarrow> 0 | r # _ \<Rightarrow> length r)"

definition rect :: "'a list list \<Rightarrow> bool" where
  "rect a = list_all (\<lambda>r. length r = snd (shape a)) a"

section \<open>Window tiling and stitching\<close>

text \<open>
  Modelled from the spec: \<open>utils.create_windows\<close> and \<open>utils.stitch_pic\<close> are
  called by \<open>ROI.get_segmentation_inputs\<close> and \<open>ROI.process_segmentation_outputs\<close>
  but live in the utilities module, which is not among the sources.  Following
  section 4.2 of the specification, tiles do not overlap, start at multiples of the
  target size, and a partial tile at the trailing edge is padded with zeros to the
  full target size.  The pipeline passes the placements as two lists, one per axis
  (\<open>windows_y\<close>, \<open>windows_x\<close>); each entry is the start and the end of the window's
  valid extent, the end being clipped to the image.  The tiles come in row-major
  order.  Stitching allocates a zero canvas reaching to the last window's end and
  writes the valid extent of each tile at its placement, in order.
\<close>

definition window_locs :: "nat \<Rightarrow> nat \<Rightarrow> (nat \<times> nat) list" where
  "window_locs n t = map (\<lambda>k. (k * t, min n (k * t + t))) [0..<(n + t - 1) div t]"

definition crop_window ::
  "'a::zero list list \<Rightarrow> nat \<times> nat \<Rightarrow> nat \<times> nat \<Rightarrow> nat \<times> nat \<Rightarrow> 'a list list" where
  "crop_window img target_size wy wx =
     map (\<lambda>i. map (\<lambda>j. if fst wy + i < snd wy \<and> fst wx + j < snd wx
                         then img ! (fst wy + i) ! (fst wx + j) else 0)
                  [0..<snd target_size])
         [0..<fst target_size]"

definition create_windows ::
  "'a::zero list list \<Rightarrow> nat \<times> nat \<Rightarrow>
     'a list list list \<times> (nat \<times> nat) list \<times> (nat \<times> nat) list" where
  "create_windows img target_size =
     (let windows_y = window_locs (fst (shape img)) (fst target_size);
          windows_x = window_locs (snd (shape img)) (snd target_size)
      in (map (\<lambda>(wy, wx). crop_window img target_size wy wx)
              (List.product windows_y windows_x),
          windows_y, windows_x))"

definition write_window ::
  "'a list list \<Rightarrow> 'a list list \<Rightarrow> nat \<times> nat \<Rightarrow> nat \<times> nat \<Rightarrow> 'a list list" where
  "write_window canvas tile wy wx =
     map (\<lambda>i. map (\<lambda>j. if fst wy \<le> i \<and> i < snd wy \<and> fst wx \<le> j \<and> j < snd wx
                         then tile ! (i - fst wy) ! (j - fst wx)
                         else canvas ! i ! j)
                  [0..<length (canvas ! i)])
         [0..<length canvas]"

definition tile_fits :: "'a list list \<times> (nat \<times> nat) \<times> (nat \<times> nat) \<Rightarrow> bool" where
  "tile_fits tw =
     (case tw of (tile, wy, wx) \<Rightarrow>
        snd wy - fst wy \<le> length tile \<and>
        list_all (\<lambda>r. snd wx - fst wx \<le> length r) tile)"

definition stitch_pic ::
  "'a::zero list list list \<Rightarrow> (nat \<times> nat) list \<Rightarrow> (nat \<times> nat) list \<Rightarrow>
     py_error + 'a list list" where
  "stitch_pic y windows_y windows_x =
     (let placed = zip y (List.product windows_y windows_x)
      in if length y \<noteq> length windows_y * length windows_x
            \<or> \<not> list_all tile_fits placed
         then Inl ShapeMismatch
         else Inr (fold (\<lambda>(tile, wy, wx) canvas. write_window canvas tile wy wx)
                     placed
                     (replicate (if windows_y = [] then 0 else snd (last windows_y))
                        (replicate (if windows_x = [] then 0 else snd (last windows_x)) 0))))"

text \<open>
  Two notions for stating what tiling promises: a tile of full target size, and
  the positions of a tile, placed at a pair of windows, that lie inside the image
  (the others are padding).
\<close>

definition full_size :: "nat \<times> nat \<Rightarrow> 'a list list \<Rightarrow> bool" where
  "full_size target_size tile =
     (length tile = fst target_size \<and> list_all (\<lambda>row. length row = snd target_size) tile)"

definition valid_in :: "(nat \<times> nat) \<times> (nat \<times> nat) \<Rightarrow> nat \<Rightarrow> nat \<Rightarrow> bool" where
  "valid_in w i j = (fst (fst w) + i < snd (fst w) \<and> fst (snd w) + j < snd (snd w))"

section \<open>Lineage\<close>

text \<open>
  Modelled from the spec: the class \<open>utils.Lineage\<close> (its methods \<open>update\<close> and
  \<open>setvalue\<close>) is not among the sources; the pipeline only calls it and reads its
  list \<open>cellnumbers\<close>.  Following sections 3 and 4.5 of the specification, the
  lineage keeps, per frame, a list of entries, an entry being the id of a cell,
  the new cell of the frame it stands for (the index that the caller passes in
  \<open>attrib\<close>, a column of the attribution matrix) and its parent (\<open>None\<close> for an
  orphan); ids are handed out in sequence and never reused; registering an orphan
  creates one new id and appends an orphan entry at the frame; registering an
  attribution appends one entry per child at the frame, each child getting a new
  id and pointing to the parent it was attributed to; a feature value is stored
  under the key (cell, frame, feature name) and a second write to the same key
  overwrites.  The pole geometry passed along is not recorded.  The pipeline reads
  \<open>len(cellnumbers)\<close> as the first frame not yet tracked, hence \<open>update\<close>
  extends the list up to its frame, also when it is given no cell to register.
\<close>

type_synonym entry = "nat \<times> nat \<times> nat option"

abbreviation cell_id :: "entry \<Rightarrow> nat" where
  "cell_id e \<equiv> fst e"


abbreviation parent :: "entry \<Rightarrow> nat option" where
  "parent e \<equiv> snd (snd e)"

record 'v lineage =
  cellnumbers :: "entry list list"
  next_cell :: nat
  cell_values :: "nat \<times> nat \<times> string \<rightharpoonup> 'v"

definition extend_frames :: "nat \<Rightarrow> 'a list list \<Rightarrow> 'a list list" where
  "extend_frames frame cn = cn @ replicate (Suc frame - length cn) []"

definition create_cell :: "nat \<Rightarrow> nat option \<Rightarrow> nat \<Rightarrow> 'v lineage \<Rightarrow> 'v lineage" where
  "create_cell frame par n l =
     (let cn = extend_frames frame (cellnumbers l)
      in l\<lparr>cellnumbers := cn[frame := cn ! frame @ [(next_cell l, n, par)]],
           next_cell := Suc (next_cell l)\<rparr>)"

definition update ::
  "nat option \<Rightarrow> nat \<Rightarrow> nat list \<Rightarrow> 'p list \<Rightarrow> 'v lineage \<Rightarrow> 'v lineage" where
  "update cell frame attrib poles l =
     fold (create_cell frame cell) attrib
       (l\<lparr>cellnumbers := extend_frames frame (cellnumbers l)\<rparr>)"

definition setvalue :: "nat \<Rightarrow> nat \<Rightarrow> string \<Rightarrow> 'v \<Rightarrow> 'v lineage \<Rightarrow> 'v lineage" where
  "setvalue cell frame feature v l =
     l\<lparr>cell_values := (cell_values l)((cell, frame, feature) \<mapsto> v)\<rparr>"

text \<open>
  The query of section 4.5: the entries of a frame.  A frame the list does not
  reach has none.
\<close>

definition cells_at :: "'v lineage \<Rightarrow> nat \<Rightarrow> entry list" where
  "cells_at l frame =
     (if frame < length (cellnumbers l) then cellnumbers l ! frame else [])"


text \<open>The ids in use are below the counter that hands out the next one.\<close>

definition counter_ok :: "'v lineage \<Rightarrow> bool" where
  "counter_ok l = list_all (list_all (\<lambda>e. cell_id e < next_cell l)) (cellnumbers l)"

section \<open>Region of interest\<close>

text \<open>
  The fields of \<open>ROI\<close> that the methods below read or write, and the stack of
  label maps that \<open>extract_features\<close> caches.
\<close>

record 'v roi =
  img_stack :: "image list"
  seg_stack :: "mask option list"
  lineage :: "'v lineage"
  label_stack :: "nat list list option list"
  crop_windows :: bool

subsection \<open>Segmentation inputs and outputs\<close>

text \<open>
  \<open>ROI.get_segmentation_inputs\<close>.  The crop to the region's box followed by the
  intensity rescaling (\<open>utils.rangescale(utils.cropbox(img, self.box))\<close>), the
  \<open>cv2.resize\<close> of the other branch and the configured target size are
  parameters.  The result is the input batch and the windows, if any.
\<close>

definition get_segmentation_inputs ::
  "(image \<Rightarrow> image) \<Rightarrow> (image \<Rightarrow> image) \<Rightarrow> nat \<times> nat \<Rightarrow> 'v roi \<Rightarrow> image \<Rightarrow>
     'v roi \<times> image list \<times> ((nat \<times> nat) list \<times> (nat \<times> nat) list) option" where
  "get_segmentation_inputs cropscale resize target_size_seg r img =
     (let i = cropscale img;
          r' = r\<lparr>img_stack := img_stack r @ [i]\<rparr>
      in if crop_windows r
         then (case create_windows i target_size_seg of
                 (x, windows_y, windows_x) \<Rightarrow> (r', x, Some (windows_y, windows_x)))
         else (r', [resize i], None))"

definition binarize :: "image \<Rightarrow> mask" where
  "binarize y = map (map (\<lambda>v. if v > 1 / 2 then 1 else 0)) y"

definition crop_to :: "nat \<times> nat \<Rightarrow> 'a list list \<Rightarrow> 'a list list" where
  "crop_to s y = map (take (snd s)) (take (fst s) y)"

definition store_seg :: "mask option list \<Rightarrow> nat option \<Rightarrow> mask \<Rightarrow> mask option list" where
  "store_seg ss frame y =
     (case frame of
        None \<Rightarrow> ss @ [Some y]
      | Some f \<Rightarrow>
          (let ss' = (if length ss \<le> f then ss @ replicate (f + 1 - length ss) None else ss)
           in ss'[f := Some y]))"

text \<open>
  \<open>ROI.process_segmentation_outputs\<close>.  The batch \<open>y\<close> is the network output
  with its last axis dropped (\<open>y[...,0]\<close>).  The area filter
  \<open>utils.opencv_areafilt\<close> is a parameter.  Every failure happens before the
  mask stack is touched.
\<close>

definition processed_mask ::
  "(mask \<Rightarrow> mask) \<Rightarrow> 'v roi \<Rightarrow> image list \<Rightarrow>
     ((nat \<times> nat) list \<times> (nat \<times> nat) list) option \<Rightarrow> py_error + mask" where
  "processed_mask opencv_areafilt r y windows =
     (case (case windows of
              None \<Rightarrow> (case y of [] \<Rightarrow> Inl IndexError | y0 # _ \<Rightarrow> Inr y0)
            | Some w \<Rightarrow> stitch_pic y (fst w) (snd w)) of
        Inl e \<Rightarrow> Inl e
      | Inr st \<Rightarrow>
          (case img_stack r of
             [] \<Rightarrow> Inl IndexError
           | i0 # _ \<Rightarrow> Inr (opencv_areafilt (crop_to (shape i0) (binarize st)))))"

definition process_segmentation_outputs ::
  "(mask \<Rightarrow> mask) \<Rightarrow> 'v roi \<Rightarrow> image list \<Rightarrow> nat option \<Rightarrow>
     ((nat \<times> nat) list \<times> (nat \<times> nat) list) option \<Rightarrow> 'v roi \<times> py_error option" where
  "process_segmentation_outputs opencv_areafilt r y frame windows =
     (case processed_mask opencv_areafilt r y windows of
        Inl e \<Rightarrow> (r, Some e)
      | Inr m \<Rightarrow> (r\<lparr>seg_stack := store_seg (seg_stack r) frame m\<rparr>, None))"

subsection \<open>Tracking inputs\<close>

text \<open>
  Both tracking methods start with \<open>if frame is None: frame =
  len(self.lineage.cellnumbers)\<close>.
\<close>

definition requested_frame :: "'v roi \<Rightarrow> nat option \<Rightarrow> nat" where
  "requested_frame r frame_arg =
     (case frame_arg of None \<Rightarrow> length (cellnumbers (lineage r)) | Some f \<Rightarrow> f)"

text \<open>
  \<open>ROI.get_tracking_inputs\<close>.  The helper \<open>utils.getpoles\<close> is a parameter: it
  is handed the entry of the mask stack (a mask or the placeholder \<open>None\<close>) and
  gives one pole pair per connected component, or nothing when it raises.  The
  compilation of the input tensor from the contours of the previous mask (lines
  896 to 955, all of it \<open>cv2\<close> and numpy calls) is a parameter as well.  The
  result pairs the region after the call with what the call returned: the raised
  error, or the batch (\<open>None\<close> when there is no previous cell to track from).
\<close>

definition get_tracking_inputs ::
  "(mask option \<Rightarrow> 'p list option) \<Rightarrow> ('v roi \<Rightarrow> nat \<Rightarrow> 'x option) \<Rightarrow>
     'v roi \<Rightarrow> nat option \<Rightarrow> 'v roi \<times> (py_error + 'x option)" where
  "get_tracking_inputs getpoles compile_inputs r frame_arg =
     (let frame = requested_frame r frame_arg
      in if length (seg_stack r) \<le> frame
         then (r, Inl (SegmentationIncomplete frame))
         else if frame = 0
                 \<or> length (cellnumbers (lineage r)) < frame
                 \<or> length (cellnumbers (lineage r) ! (frame - 1)) = 0
         then (case getpoles (seg_stack r ! frame) of
                 None \<Rightarrow> (r, Inl HelperError)
               | Some poles \<Rightarrow>
                   (r\<lparr>lineage := fold (\<lambda>c. update None frame [c] [poles ! c])
                                      [0..<length poles] (lineage r)\<rparr>,
                    Inr None))
         else (case compile_inputs r frame of
                 None \<Rightarrow> (r, Inl HelperError)
               | Some x \<Rightarrow> (r, Inr (Some x))))"

subsection \<open>Tracking outputs\<close>

text \<open>
  Modelled from the spec: \<open>utils.getAttributions\<close> is not among the sources.
  Section 4.4 of the specification: every score is thresholded at one half, and
  the attribution matrix holds 1 exactly where the score is above the threshold.
\<close>

definition getAttributions :: "real list list \<Rightarrow> nat list list" where
  "getAttributions scores = map (map (\<lambda>s. if s > 1 / 2 then 1 else 0)) scores"





section \<open>Position\<close>

text \<open>
  A \<open>Position\<close> is handled through its attribute dictionary, in insertion order:
  \<open>__getstate__\<close>, \<open>load\<close> and \<open>clear\<close> all loop over \<open>self.__dict__\<close>.  An
  attribute holds \<open>None\<close>, a flag, a number, a tuple of strings, the list of
  regions, or some other object (the reader, the models, the drift template) that
  is opaque here.  Assigning an attribute replaces the value of a key that is
  present and appends a key that is not.
\<close>

datatype 'v pyval =
    PyNone
  | PyBool bool
  | PyInt int
  | PyTuple "string list"
  | PyRois "'v roi list"
  | PyObject nat

type_synonym 'v position = "(string \<times> 'v pyval) list"

fun setattr :: "string \<Rightarrow> 'v pyval \<Rightarrow> 'v position \<Rightarrow> 'v position" where
  "setattr k v [] = [(k, v)]"
| "setattr k v ((k', v') # p) =
     (if k' = k then (k, v) # p else (k', v') # setattr k v p)"

text \<open>
  The test \<open>k in self._pickle_skip\<close>, which each of the three loops evaluates
  anew in every round.  Reading the attribute fails when it is missing; the
  membership test fails on \<open>None\<close>, on a flag and on a number, and an opaque
  object is taken here not to be a container either; a list of regions holds no
  string.
\<close>

definition in_pickle_skip :: "'v position \<Rightarrow> string \<Rightarrow> py_error + bool" where
  "in_pickle_skip p k =
     (case map_of p ''_pickle_skip'' of
        None \<Rightarrow> Inl AttributeError
      | Some (PyTuple ks) \<Rightarrow> Inr (k \<in> set ks)
      | Some (PyRois rs) \<Rightarrow> Inr False
      | Some _ \<Rightarrow> Inl TypeError)"

text \<open>
  \<open>Position.__getstate__\<close> builds the state that pickle stores: a skipped
  attribute is stored as \<open>None\<close>.
\<close>

fun getstate_loop ::
  "(string \<times> 'v pyval) list \<Rightarrow> 'v position \<Rightarrow> 'v position \<Rightarrow> py_error + 'v position" where
  "getstate_loop [] p state = Inr state"
| "getstate_loop ((k, v) # items) p state =
     (case in_pickle_skip p k of
        Inl e \<Rightarrow> Inl e
      | Inr skip \<Rightarrow> getstate_loop items p (setattr k (if skip then PyNone else v) state))"

definition getstate :: "'v position \<Rightarrow> py_error + 'v position" where
  "getstate p = getstate_loop p p []"

text \<open>
  \<open>Position.load\<close> copies the attributes of the unpickled position (the first
  argument: the dictionary of what \<open>utils.load_position\<close> returned) into
  \<open>self\<close>, except the skipped ones.  An error leaves \<open>self\<close> as the earlier
  rounds made it.
\<close>

fun load :: "(string \<times> 'v pyval) list \<Rightarrow> 'v position \<Rightarrow> 'v position \<times> py_error option" where
  "load [] p = (p, None)"
| "load ((k, v) # items) p =
     (case in_pickle_skip p k of
        Inl e \<Rightarrow> (p, Some e)
      | Inr skip \<Rightarrow> load items (if skip then p else setattr k v p))"

text \<open>
  \<open>Position.clear\<close> sets the attributes to \<open>None\<close>, except the skipped ones.
  The keys it runs over are those of the dictionary when the loop starts.
\<close>

fun clear_loop :: "string list \<Rightarrow> 'v position \<Rightarrow> 'v position \<times> py_error option" where
  "clear_loop [] p = (p, None)"
| "clear_loop (k # keys) p =
     (case in_pickle_skip p k of
        Inl e \<Rightarrow> (p, Some e)
      | Inr skip \<Rightarrow> clear_loop keys (if skip then p else setattr k PyNone p))"

definition clear :: "'v position \<Rightarrow> 'v position \<times> py_error option" where
  "clear p = clear_loop (map fst p) p"

text \<open>
  What the position holds in memory of its regions' lineages and label maps:
  \<open>[(r.lineage, r.label_stack) for r in self.rois]\<close>, if \<open>self.rois\<close> is a list.
\<close>

definition durable_in_memory ::
  "'v position \<Rightarrow> ('v lineage \<times> nat list list option list) list option" where
  "durable_in_memory p =
     (case map_of p ''rois'' of
        Some (PyRois rs) \<Rightarrow> Some (map (\<lambda>r. (lineage r, label_stack r)) rs)
      | _ \<Rightarrow> None)"

section \<open>Drift correction\<close>

text \<open>
  Modelled from the spec: \<open>utils.driftcorr\<close> is not among the sources;
  \<open>Position.segment\<close> calls it with the frames, the template and the box, and
  keeps the corrected frames and the drift values it returns.  Following sections
  4.1 and 7 of the specification, every frame is matched on its own against the
  fixed template: its translation is the best scoring candidate shift, provided
  that shift scores above the minimal confidence; otherwise the translation is zero
  and a warning is logged, nothing is raised.  The matching score of a shift on a
  frame, the candidate shifts of the search box, the minimal confidence and the
  resampling of a frame by a translation are parameters.  The drift values are the
  two lists the pipeline initialises as \<open>[[],[]]\<close>; the warnings are the third
  component, one flag per frame.
\<close>

fun best_shift :: "(int \<times> int \<Rightarrow> real) \<Rightarrow> (int \<times> int) list \<Rightarrow> (int \<times> int) option" where
  "best_shift score [] = None"
| "best_shift score (c # cs) =
     (case best_shift score cs of
        None \<Rightarrow> Some c
      | Some b \<Rightarrow> if score c < score b then Some b else Some c)"

definition drift_of_frame ::
  "('f \<Rightarrow> int \<times> int \<Rightarrow> real) \<Rightarrow> (int \<times> int) list \<Rightarrow> real \<Rightarrow> 'f \<Rightarrow> (int \<times> int) \<times> bool" where
  "drift_of_frame score shifts min_confidence frame =
     (case best_shift (score frame) shifts of
        None \<Rightarrow> ((0, 0), True)
      | Some b \<Rightarrow> if min_confidence < score frame b then (b, False) else ((0, 0), True))"

definition driftcorr ::
  "('f \<Rightarrow> int \<times> int \<Rightarrow> real) \<Rightarrow> (int \<times> int) list \<Rightarrow> real \<Rightarrow> (int \<times> int \<Rightarrow> 'f \<Rightarrow> 'f) \<Rightarrow>
     'f list \<Rightarrow> 'f list \<times> (int list \<times> int list) \<times> bool list" where
  "driftcorr score shifts min_confidence resample frames =
     (let found = map (drift_of_frame score shifts min_confidence) frames
      in (map (\<lambda>(frame, d). resample (fst d) frame) (zip frames found),
          (map (\<lambda>d. fst (fst d)) found, map (\<lambda>d. snd (fst d)) found),
          map snd found))"

section \<open>Example states\<close>

definition empty_lineage :: "real lineage" where
  "empty_lineage = \<lparr>cellnumbers = [], next_cell = 0, cell_values = Map.empty\<rparr>"

definition fresh_roi :: "real roi" where
  "fresh_roi = \<lparr>img_stack = [[[0, 0]]], seg_stack = [],
                 lineage = empty_lineage, label_stack = [], crop_windows = False\<rparr>"

definition one_mask_roi :: "real roi" where
  "one_mask_roi = \<lparr>img_stack = [[[0, 0]]], seg_stack = [Some [[1, 1]]],
                    lineage = empty_lineage, label_stack = [], crop_windows = False\<rparr>"

definition one_cell_lineage :: "real lineage" where
  "one_cell_lineage =
     \<lparr>cellnumbers = [[(0, 0, None)]], next_cell = 1, cell_values = Map.empty\<rparr>"


definition tracked_roi :: "real roi" where
  "tracked_roi = \<lparr>img_stack = [[[0, 0]]], seg_stack = [Some [[1, 1]]],
                   lineage = one_cell_lineage, label_stack = [Some [[1, 1]]],
                   crop_windows = False\<rparr>"


definition holed_roi :: "real roi" where
  "holed_roi = \<lparr>img_stack = [[[0, 0]], [[0, 0]], [[0, 0]]],
                 seg_stack = [Some [[1, 1]], None, Some [[1, 1]]],
                 lineage = one_cell_lineage, label_stack = [],
                 crop_windows = False\<rparr>"

definition example_position :: "real position" where
  "example_position =
     [(''position_nb'', PyInt 0), (''reader'', PyObject 0), (''models'', PyObject 1),
      (''rois'', PyRois [tracked_roi]), (''_preprocessed'', PyBool True),
      (''_pickle_skip'', PyTuple [''reader'', ''models'', ''_pickle_skip''])]"

definition unpickled_position :: "real position" where
  "unpickled_position =
     [(''position_nb'', PyInt 0), (''reader'', PyNone), (''models'', PyNone),
      (''rois'', PyRois [tracked_roi]), (''_preprocessed'', PyBool True),
      (''_pickle_skip'', PyNone)]"

section \<open>Storing segmentation outputs out of order\<close>

lemma replicate_Suc_update_last:
  "(replicate (Suc n) x)[n := y] = replicate n x @ [y]"
  by (induction n) simp_all

lemma store_seg_extends:
  assumes "length ss \<le> f"
  shows "store_seg ss (Some f) m = ss @ replicate (f - length ss) None @ [Some m]"
proof -
  have "f + 1 - length ss = Suc (f - length ss)"
    using assms by simp
  then have "store_seg ss (Some f) m =
               (ss @ replicate (Suc (f - length ss)) None)[f := Some m]"
    using assms by (simp add: store_seg_def)
  also have "\<dots> = ss @ (replicate (Suc (f - length ss)) None)[f - length ss := Some m]"
    using assms by (simp add: list_update_append)
  finally show ?thesis
    by (simp only: replicate_Suc_update_last)
qed

lemma store_seg_overwrites:
  "f < length ss \<Longrightarrow> store_seg ss (Some f) m = ss[f := Some m]"
  by (simp add: store_seg_def)

lemma store_seg_appends:
  "store_seg ss None m = ss @ [Some m]"
  by (simp add: store_seg_def)

lemma process_segmentation_outputs_failure:
  "processed_mask opencv_areafilt r y windows = Inl e \<Longrightarrow>
     process_segmentation_outputs opencv_areafilt r y frame windows = (r, Some e)"
  by (simp add: process_segmentation_outputs_def)

text \<open>
  C6.  When the mask stack has length \<open>L \<le> f\<close> and the output processes to the
  mask \<open>m\<close>, storing it for frame \<open>f\<close> succeeds and leaves a stack of length
  \<open>f + 1\<close> with \<open>m\<close> at index \<open>f\<close>, the placeholder \<open>None\<close> at every index from
  \<open>L\<close> up to \<open>f\<close>, and the masks below \<open>L\<close> as they were; nothing else of the
  region changes.
\<close>

theorem process_segmentation_outputs_out_of_order:
  assumes "length (seg_stack r) \<le> f"
    and "processed_mask opencv_areafilt r y windows = Inr m"
  shows "\<exists>r'. process_segmentation_outputs opencv_areafilt r y (Some f) windows = (r', None)
           \<and> length (seg_stack r') = Suc f
           \<and> seg_stack r' ! f = Some m
           \<and> (\<forall>i. length (seg_stack r) \<le> i \<and> i < f \<longrightarrow> seg_stack r' ! i = None)
           \<and> (\<forall>i < length (seg_stack r). seg_stack r' ! i = seg_stack r ! i)
           \<and> img_stack r' = img_stack r \<and> lineage r' = lineage r
           \<and> label_stack r' = label_stack r \<and> crop_windows r' = crop_windows r"
  using assms
  by (auto simp: process_segmentation_outputs_def store_seg_extends nth_append)

theorem process_segmentation_outputs_out_of_order_witness:
  "length (seg_stack one_mask_roi) \<le> 3
   \<and> processed_mask (\<lambda>m. m) one_mask_roi [[[9 / 10, 1 / 5]]] None = Inr [[1, 0]]
   \<and> (\<exists>r'. process_segmentation_outputs (\<lambda>m. m) one_mask_roi [[[9 / 10, 1 / 5]]] (Some 3) None
               = (r', None)
           \<and> length (seg_stack r') = Suc 3
           \<and> seg_stack r' ! 3 = Some [[1, 0]]
           \<and> (\<forall>i. length (seg_stack one_mask_roi) \<le> i \<and> i < 3 \<longrightarrow> seg_stack r' ! i = None)
           \<and> (\<forall>i < length (seg_stack one_mask_roi). seg_stack r' ! i = seg_stack one_mask_roi ! i)
           \<and> img_stack r' = img_stack one_mask_roi \<and> lineage r' = lineage one_mask_roi
           \<and> label_stack r' = label_stack one_mask_roi
           \<and> crop_windows r' = crop_windows one_mask_roi)"
proof -
  have h1: "length (seg_stack one_mask_roi) \<le> 3"
    by (simp add: one_mask_roi_def)
  have h2: "processed_mask (\<lambda>m. m) one_mask_roi [[[9 / 10, 1 / 5]]] None = Inr [[1, 0]]"
    by (simp add: processed_mask_def one_mask_roi_def binarize_def crop_to_def shape_def)
  show ?thesis
    using h1 h2 process_segmentation_outputs_out_of_order [OF h1 h2] by blast
qed

section \<open>The precondition of tracking\<close>

text \<open>
  The check of \<open>get_tracking_inputs\<close> is on the length of the mask stack only.
  On a region whose stack holds masks for frames 0 and 2 and the placeholder
  \<open>None\<close> for frame 1 (what storing frame 2 before frame 1 leaves), asking for
  the tracking inputs of frame 1 raises no "Segmentation incomplete": the call goes
  on to compile the inputs from the missing mask, and returns a batch or fails
  inside a helper, whatever the helpers are.
\<close>

lemma get_tracking_inputs_placeholder_passes:
  "1 < length (seg_stack holed_roi)
   \<and> seg_stack holed_roi ! 1 = None
   \<and> get_tracking_inputs getpoles compile_inputs holed_roi (Some 1)
       = (holed_roi, case compile_inputs holed_roi 1 of
                       None \<Rightarrow> Inl HelperError
                     | Some x \<Rightarrow> Inr (Some x))
   \<and> (\<forall>e. snd (get_tracking_inputs getpoles compile_inputs holed_roi (Some 1))
            \<noteq> Inl (SegmentationIncomplete e))"
  by (auto simp: get_tracking_inputs_def requested_frame_def holed_roi_def
      one_cell_lineage_def split: option.splits)




text \<open>
  C10.  The error "Segmentation incomplete" is raised exactly when the frame index
  is at least the length of the mask stack.  In particular, once an output has been
  stored for frame \<open>f + 1\<close> on a stack that did not reach \<open>f\<close>, the slot \<open>f\<close>
  exists and holds the placeholder \<open>None\<close>, and asking for the tracking inputs of
  frame \<open>f\<close> does not raise that error.
\<close>

theorem get_tracking_inputs_checks_length_only:
  "((\<exists>e. snd (get_tracking_inputs getpoles compile_inputs r frame_arg)
            = Inl (SegmentationIncomplete e))
      \<longleftrightarrow> length (seg_stack r) \<le> requested_frame r frame_arg)
   \<and> (length (seg_stack r) \<le> f
        \<and> process_segmentation_outputs opencv_areafilt r y (Some (Suc f)) windows = (r', None)
      \<longrightarrow> f < length (seg_stack r') \<and> seg_stack r' ! f = None
          \<and> (\<forall>e. snd (get_tracking_inputs getpoles compile_inputs r' (Some f))
                    \<noteq> Inl (SegmentationIncomplete e)))"
proof (intro conjI impI)
  show "(\<exists>e. snd (get_tracking_inputs getpoles compile_inputs r frame_arg)
               = Inl (SegmentationIncomplete e))
          \<longleftrightarrow> length (seg_stack r) \<le> requested_frame r frame_arg"
    by (auto simp: get_tracking_inputs_def Let_def split: option.splits)
next
  assume a: "length (seg_stack r) \<le> f
      \<and> process_segmentation_outputs opencv_areafilt r y (Some (Suc f)) windows = (r', None)"
  then obtain m where m: "processed_mask opencv_areafilt r y windows = Inr m"
    and r': "r' = r\<lparr>seg_stack := store_seg (seg_stack r) (Some (Suc f)) m\<rparr>"
    by (auto simp: process_segmentation_outputs_def split: sum.splits)
  have le: "length (seg_stack r) \<le> Suc f" and le0: "length (seg_stack r) \<le> f"
    using a by simp_all
  have "Suc f - length (seg_stack r) = Suc (f - length (seg_stack r))"
    using le0 by simp
  then have stack: "seg_stack r' =
      seg_stack r @ replicate (f - length (seg_stack r)) None @ [None, Some m]"
    using r' store_seg_extends [OF le] by (simp add: replicate_append_same)
  show len: "f < length (seg_stack r')"
    using le0 stack by simp
  show "seg_stack r' ! f = None"
    using le0 stack by (simp add: nth_append)
  show "\<forall>e. snd (get_tracking_inputs getpoles compile_inputs r' (Some f))
               \<noteq> Inl (SegmentationIncomplete e)"
    using len
    by (auto simp: get_tracking_inputs_def requested_frame_def Let_def split: option.splits)
qed

theorem get_tracking_inputs_checks_length_only_witness:
  "length (seg_stack fresh_roi) \<le> 0
   \<and> process_segmentation_outputs (\<lambda>m. m) fresh_roi [[[9 / 10, 1 / 5]]] (Some (Suc 0)) None
       = (fresh_roi\<lparr>seg_stack := [None, Some [[1, 0]]]\<rparr>, None)
   \<and> 0 < length (seg_stack (fresh_roi\<lparr>seg_stack := [None, Some [[1, 0]]]\<rparr>))
   \<and> seg_stack (fresh_roi\<lparr>seg_stack := [None, Some [[1, 0]]]\<rparr>) ! 0 = None
   \<and> (\<forall>e. snd (get_tracking_inputs (\<lambda>m. (None :: nat list option))
                  (\<lambda>r f. (None :: nat option))
                  (fresh_roi\<lparr>seg_stack := [None, Some [[1, 0]]]\<rparr>) (Some 0))
             \<noteq> Inl (SegmentationIncomplete e))"
proof -
  have h1: "length (seg_stack fresh_roi) \<le> 0"
    by (simp add: fresh_roi_def)
  have h2: "process_segmentation_outputs (\<lambda>m. m) fresh_roi [[[9 / 10, 1 / 5]]]
              (Some (Suc 0)) None
            = (fresh_roi\<lparr>seg_stack := [None, Some [[1, 0]]]\<rparr>, None)"
    by (simp add: process_segmentation_outputs_def processed_mask_def fresh_roi_def
        binarize_def crop_to_def shape_def store_seg_def)
  show ?thesis
    using h1 h2
      get_tracking_inputs_checks_length_only
        [of "\<lambda>m. (None :: nat list option)" "\<lambda>r f. (None :: nat option)"
            fresh_roi None 0 "\<lambda>m. m" "[[[9 / 10, 1 / 5]]]" None
            "fresh_roi\<lparr>seg_stack := [None, Some [[1, 0]]]\<rparr>"]
    by blast
qed

section \<open>Thresholding the scores\<close>

lemma getAttributions_of_binary:
  assumes "list_all (list_all (\<lambda>b. b \<le> 1)) B"
  shows "getAttributions (map (map real) B) = B"
proof -
  have "\<And>b::nat. b \<le> 1 \<Longrightarrow> (if real b > 1 / 2 then 1 else 0) = b"
    by (case_tac b) auto
  then show ?thesis
    using assms by (auto simp: getAttributions_def list_all_iff intro!: map_idI)
qed

text \<open>
  C2.  The attribution matrix has the shape of the score matrix, and its entry for
  old cell \<open>old\<close> and new cell \<open>n\<close> is 1 exactly when the score is above one half
  and 0 exactly when it is not.  Nothing ties the rows or the columns together:
  every matrix of zeros and ones is the attribution matrix of some scores, so a row
  may hold several ones (a division) and a column none (a new appearance).
\<close>

theorem getAttributions_threshold:
  "length (getAttributions S) = length S
   \<and> (\<forall>old < length S. length (getAttributions S ! old) = length (S ! old)
        \<and> (\<forall>n < length (S ! old).
              (getAttributions S ! old ! n = 1 \<longleftrightarrow> 1 / 2 < S ! old ! n)
            \<and> (getAttributions S ! old ! n = 0 \<longleftrightarrow> S ! old ! n \<le> 1 / 2)))
   \<and> (list_all (list_all (\<lambda>b. b \<le> 1)) B \<longrightarrow> getAttributions (map (map real) B) = B)"
  using getAttributions_of_binary [of B] by (auto simp: getAttributions_def)

theorem getAttributions_threshold_witness:
  "getAttributions [[9 / 10, 9 / 10, 1 / 10]] = [[1, 1, 0]]
   \<and> list_all (list_all (\<lambda>b. b \<le> 1)) [[1, 1, 0 :: nat]]
   \<and> getAttributions (map (map real) [[1, 1, 0]]) = [[1, 1, 0]]"
proof -
  have h: "list_all (list_all (\<lambda>b. b \<le> 1)) [[1, 1, 0 :: nat]]"
    by simp
  have "getAttributions [[9 / 10, 9 / 10, 1 / 10]] = [[1, 1, 0]]"
    by (simp add: getAttributions_def)
  then show ?thesis
    using h getAttributions_threshold [of "[[9 / 10, 9 / 10, 1 / 10]]" "[[1, 1, 0]]"] by blast
qed

section \<open>Feature values\<close>

text \<open>
  C8.  Writing the same value twice under the same cell, frame and feature name
  leaves the lineage as one write does; the key then holds that value, the second
  write replaces whatever the first one stored, the keys are those present before
  together with the written one, and the cells are untouched.  The operation has
  no failure.
\<close>

theorem setvalue_idempotent:
  "setvalue c f n v (setvalue c f n v l) = setvalue c f n v l
   \<and> setvalue c f n v (setvalue c f n w l) = setvalue c f n v l
   \<and> cell_values (setvalue c f n v (setvalue c f n v l)) (c, f, n) = Some v
   \<and> dom (cell_values (setvalue c f n v (setvalue c f n v l)))
       = insert (c, f, n) (dom (cell_values l))
   \<and> cellnumbers (setvalue c f n v (setvalue c f n v l)) = cellnumbers l
   \<and> next_cell (setvalue c f n v (setvalue c f n v l)) = next_cell l"
  by (simp add: setvalue_def)

theorem setvalue_idempotent_witness:
  "cell_values (setvalue 3 5 ''area'' 120 (setvalue 3 5 ''area'' 120 empty_lineage))
     (3, 5, ''area'') = Some 120
   \<and> dom (cell_values (setvalue 3 5 ''area'' 120 (setvalue 3 5 ''area'' 120 empty_lineage)))
       = {(3, 5, ''area'')}"
  using setvalue_idempotent [of 3 5 "''area''" 120 empty_lineage 120]
  by (simp add: empty_lineage_def setvalue_def)

section \<open>Clearing and reloading a position\<close>

lemma map_fst_setattr_present:
  "k \<in> fst ` set p \<Longrightarrow> map fst (setattr k v p) = map fst p"
  by (induction p) force+

lemma setattr_present:
  "distinct (map fst p) \<Longrightarrow> k \<in> fst ` set p \<Longrightarrow>
     setattr k v p = map (\<lambda>kv. (fst kv, if fst kv = k then v else snd kv)) p"
proof (induction p)
  case Nil
  then show ?case by simp
next
  case (Cons a p)
  obtain k' v' where a: "a = (k', v')" by (cases a) auto
  show ?case
  proof (cases "k' = k")
    case True
    then have "k \<notin> fst ` set p" using Cons.prems(1) a by auto
    then have "map (\<lambda>kv. (fst kv, if fst kv = k then v else snd kv)) p = p"
      by (intro map_idI) (auto simp: prod_eq_iff)
    with True show ?thesis by (simp add: a)
  next
    case False
    then have "k \<in> fst ` set p" using Cons.prems(2) a by auto
    with Cons.IH Cons.prems(1) False show ?thesis by (simp add: a)
  qed
qed

lemma setattr_absent: "k \<notin> fst ` set p \<Longrightarrow> setattr k v p = p @ [(k, v)]"
  by (induction p) auto

lemma map_of_setattr:
  "map_of (setattr k v p) k' = (if k' = k then Some v else map_of p k')"
  by (induction p) auto

lemma in_pickle_skip_intact:
  "map_of p ''_pickle_skip'' = Some (PyTuple ks) \<Longrightarrow> in_pickle_skip p k = Inr (k \<in> set ks)"
  by (simp add: in_pickle_skip_def)

lemma in_pickle_skip_None:
  "map_of p ''_pickle_skip'' = Some PyNone \<Longrightarrow> in_pickle_skip p k = Inl TypeError"
  by (simp add: in_pickle_skip_def)

lemma clear_loop_intact:
  assumes "distinct (map fst p)"
    and "map_of p ''_pickle_skip'' = Some (PyTuple ks)"
    and "''_pickle_skip'' \<in> set ks"
    and "set keys \<subseteq> fst ` set p"
  shows "clear_loop keys p =
           (map (\<lambda>kv. (fst kv, if fst kv \<in> set keys \<and> fst kv \<notin> set ks
                                  then PyNone else snd kv)) p, None)"
  using assms
proof (induction keys arbitrary: p)
  case Nil
  have "map (\<lambda>kv. (fst kv, snd kv)) p = p" by simp
  then show ?case by simp
next
  case (Cons k keys)
  note skip = in_pickle_skip_intact [OF Cons.prems(2)]
  have sub: "set keys \<subseteq> fst ` set p" and k: "k \<in> fst ` set p"
    using Cons.prems(4) by simp_all
  show ?case
  proof (cases "k \<in> set ks")
    case True
    have "clear_loop (k # keys) p = clear_loop keys p"
      using True by (simp add: skip)
    also have "\<dots> = (map (\<lambda>kv. (fst kv, if fst kv \<in> set keys \<and> fst kv \<notin> set ks
                                  then PyNone else snd kv)) p, None)"
      by (rule Cons.IH [OF Cons.prems(1,2,3) sub])
    also have "map (\<lambda>kv. (fst kv, if fst kv \<in> set keys \<and> fst kv \<notin> set ks
                                  then PyNone else snd kv)) p
             = map (\<lambda>kv. (fst kv, if fst kv \<in> set (k # keys) \<and> fst kv \<notin> set ks
                                  then PyNone else snd kv)) p"
      using True by (intro map_cong) auto
    finally show ?thesis .
  next
    case False
    let ?p = "setattr k PyNone p"
    have p': "?p = map (\<lambda>kv. (fst kv, if fst kv = k then PyNone else snd kv)) p"
      by (rule setattr_present [OF Cons.prems(1) k])
    have keys': "map fst ?p = map fst p"
      by (rule map_fst_setattr_present [OF k])
    have d: "distinct (map fst ?p)" using Cons.prems(1) keys' by simp
    have "k \<noteq> ''_pickle_skip''" using False Cons.prems(3) by auto
    then have s: "map_of ?p ''_pickle_skip'' = Some (PyTuple ks)"
      using Cons.prems(2) by (simp add: map_of_setattr)
    have sub': "set keys \<subseteq> fst ` set ?p"
      using sub keys' by (metis set_map)
    have "clear_loop (k # keys) p = clear_loop keys ?p"
      using False by (simp add: skip)
    also have "\<dots> = (map (\<lambda>kv. (fst kv, if fst kv \<in> set keys \<and> fst kv \<notin> set ks
                                  then PyNone else snd kv)) ?p, None)"
      by (rule Cons.IH [OF d s Cons.prems(3) sub'])
    also have "map (\<lambda>kv. (fst kv, if fst kv \<in> set keys \<and> fst kv \<notin> set ks
                                  then PyNone else snd kv)) ?p
             = map (\<lambda>kv. (fst kv, if fst kv \<in> set (k # keys) \<and> fst kv \<notin> set ks
                                  then PyNone else snd kv)) p"
      unfolding p' using False by (auto simp: comp_def)
    finally show ?thesis .
  qed
qed

lemma clear_intact:
  assumes "distinct (map fst p)"
    and "map_of p ''_pickle_skip'' = Some (PyTuple ks)"
    and "''_pickle_skip'' \<in> set ks"
  shows "clear p = (map (\<lambda>kv. (fst kv, if fst kv \<in> set ks then snd kv else PyNone)) p, None)"
proof -
  have "set (map fst p) \<subseteq> fst ` set p" by simp
  from clear_loop_intact [OF assms this]
  have "clear p = (map (\<lambda>kv. (fst kv, if fst kv \<in> set (map fst p) \<and> fst kv \<notin> set ks
                                  then PyNone else snd kv)) p, None)"
    by (simp add: clear_def)
  also have "map (\<lambda>kv. (fst kv, if fst kv \<in> set (map fst p) \<and> fst kv \<notin> set ks
                                  then PyNone else snd kv)) p
           = map (\<lambda>kv. (fst kv, if fst kv \<in> set ks then snd kv else PyNone)) p"
    by (intro map_cong) auto
  finally show ?thesis .
qed

lemma getstate_loop_intact:
  assumes "map_of p ''_pickle_skip'' = Some (PyTuple ks)"
    and "distinct (map fst items)"
    and "fst ` set items \<inter> fst ` set state = {}"
  shows "getstate_loop items p state =
           Inr (state @ map (\<lambda>kv. (fst kv, if fst kv \<in> set ks then PyNone else snd kv)) items)"
  using assms(2,3)
proof (induction items arbitrary: state)
  case Nil
  then show ?case by simp
next
  case (Cons a items)
  obtain k v where a: "a = (k, v)" by (cases a) auto
  note skip = in_pickle_skip_intact [OF assms(1)]
  let ?x = "if k \<in> set ks then PyNone else v"
  have fresh: "k \<notin> fst ` set state"
    using Cons.prems(2) a by auto
  then have st: "setattr k ?x state = state @ [(k, ?x)]"
    by (rule setattr_absent)
  have d: "distinct (map fst items)" and "k \<notin> fst ` set items"
    using Cons.prems(1) a by auto
  then have disj: "fst ` set items \<inter> fst ` set (state @ [(k, ?x)]) = {}"
    using Cons.prems(2) by auto
  have "getstate_loop (a # items) p state = getstate_loop items p (state @ [(k, ?x)])"
    by (simp add: a skip st)
  also have "\<dots> = Inr ((state @ [(k, ?x)])
        @ map (\<lambda>kv. (fst kv, if fst kv \<in> set ks then PyNone else snd kv)) items)"
    by (rule Cons.IH [OF d disj])
  finally show ?case by (simp add: a)
qed

lemma getstate_intact:
  assumes "distinct (map fst p)"
    and "map_of p ''_pickle_skip'' = Some (PyTuple ks)"
  shows "getstate p = Inr (map (\<lambda>kv. (fst kv, if fst kv \<in> set ks then PyNone else snd kv)) p)"
  using getstate_loop_intact [OF assms(2) assms(1), of "[]"] by (simp add: getstate_def)

lemma load_intact:
  assumes "distinct (map fst items)"
    and "distinct (map fst p)"
    and "map_of p ''_pickle_skip'' = Some (PyTuple ks)"
    and "''_pickle_skip'' \<in> set ks"
    and "fst ` set items \<subseteq> fst ` set p"
  shows "load items p =
           (map (\<lambda>kv. (fst kv, if fst kv \<notin> set ks \<and> fst kv \<in> fst ` set items
                                  then the (map_of items (fst kv)) else snd kv)) p, None)"
  using assms
proof (induction items arbitrary: p)
  case Nil
  have "map (\<lambda>kv. (fst kv, snd kv)) p = p" by simp
  then show ?case by simp
next
  case (Cons a items)
  obtain k v where a: "a = (k, v)" by (cases a) auto
  note skip = in_pickle_skip_intact [OF Cons.prems(3)]
  have d: "distinct (map fst items)" and knew: "k \<notin> fst ` set items"
    using Cons.prems(1) a by auto
  have sub: "fst ` set items \<subseteq> fst ` set p" and k: "k \<in> fst ` set p"
    using Cons.prems(5) a by auto
  show ?case
  proof (cases "k \<in> set ks")
    case True
    have "load (a # items) p = load items p"
      using True by (simp add: a skip)
    also have "\<dots> = (map (\<lambda>kv. (fst kv, if fst kv \<notin> set ks \<and> fst kv \<in> fst ` set items
                                  then the (map_of items (fst kv)) else snd kv)) p, None)"
      by (rule Cons.IH [OF d Cons.prems(2,3,4) sub])
    also have "map (\<lambda>kv. (fst kv, if fst kv \<notin> set ks \<and> fst kv \<in> fst ` set items
                                  then the (map_of items (fst kv)) else snd kv)) p
             = map (\<lambda>kv. (fst kv, if fst kv \<notin> set ks \<and> fst kv \<in> fst ` set (a # items)
                                  then the (map_of (a # items) (fst kv)) else snd kv)) p"
      using True by (intro map_cong) (auto simp: a)
    finally show ?thesis .
  next
    case False
    let ?p = "setattr k v p"
    have p': "?p = map (\<lambda>kv. (fst kv, if fst kv = k then v else snd kv)) p"
      by (rule setattr_present [OF Cons.prems(2) k])
    have keys': "map fst ?p = map fst p"
      by (rule map_fst_setattr_present [OF k])
    have dp: "distinct (map fst ?p)" using Cons.prems(2) keys' by simp
    have "k \<noteq> ''_pickle_skip''" using False Cons.prems(4) by auto
    then have s: "map_of ?p ''_pickle_skip'' = Some (PyTuple ks)"
      using Cons.prems(3) by (simp add: map_of_setattr)
    have "fst ` set ?p = fst ` set p"
      using keys' by (metis set_map)
    then have sub': "fst ` set items \<subseteq> fst ` set ?p"
      using sub by simp
    have "load (a # items) p = load items ?p"
      using False by (simp add: a skip)
    also have "\<dots> = (map (\<lambda>kv. (fst kv, if fst kv \<notin> set ks \<and> fst kv \<in> fst ` set items
                                  then the (map_of items (fst kv)) else snd kv)) ?p, None)"
      by (rule Cons.IH [OF d dp s Cons.prems(4) sub'])
    also have "map (\<lambda>kv. (fst kv, if fst kv \<notin> set ks \<and> fst kv \<in> fst ` set items
                                  then the (map_of items (fst kv)) else snd kv)) ?p
             = map (\<lambda>kv. (fst kv, if fst kv \<notin> set ks \<and> fst kv \<in> fst ` set (a # items)
                                  then the (map_of (a # items) (fst kv)) else snd kv)) p"
      unfolding p' using False knew by (auto simp: a comp_def)
    finally show ?thesis .
  qed
qed

lemma map_of_map_keyed:
  "map_of (map (\<lambda>kv. (fst kv, h (fst kv) (snd kv))) p) k = map_option (h k) (map_of p k)"
  by (induction p) auto

lemma clear_unpickled:
  assumes "p \<noteq> []" and "map_of p ''_pickle_skip'' = Some PyNone"
  shows "clear p = (p, Some TypeError)"
proof -
  obtain a p' where p: "p = a # p'" using assms(1) by (cases p) auto
  have "clear_loop (fst a # map fst p') p = (p, Some TypeError)"
    by (simp add: in_pickle_skip_None [OF assms(2)])
  then show ?thesis by (simp add: clear_def p)
qed

lemma getstate_unpickled:
  assumes "p \<noteq> []" and "map_of p ''_pickle_skip'' = Some PyNone"
  shows "getstate p = Inl TypeError"
proof -
  obtain k v p' where p: "p = (k, v) # p'" using assms(1) by (cases p) auto
  have "getstate_loop ((k, v) # p') p [] = Inl TypeError"
    by (simp add: in_pickle_skip_None [OF assms(2)])
  then show ?thesis by (simp add: getstate_def p)
qed

lemma load_unpickled:
  assumes "items \<noteq> []" and "map_of p ''_pickle_skip'' = Some PyNone"
  shows "load items p = (p, Some TypeError)"
proof -
  obtain k v items' where i: "items = (k, v) # items'" using assms(1) by (cases items) auto
  show ?thesis
    by (simp add: i in_pickle_skip_None [OF assms(2)])
qed

text \<open>
  On a position that was itself unpickled, \<open>_pickle_skip\<close> is \<open>None\<close>: each of
  the three methods raises \<open>TypeError\<close> in its first round and changes nothing.
\<close>

lemma clear_unpickled_example:
  "clear unpickled_position = (unpickled_position, Some TypeError)
   \<and> getstate unpickled_position = Inl TypeError"
  by (simp add: clear_def getstate_def in_pickle_skip_def unpickled_position_def)

text \<open>
  C9, as the claim states it, fails: \<open>clear\<close> does not keep the lineage and the
  label maps while dropping the bulk arrays only.  On the example position, whose
  \<open>_pickle_skip\<close> is the tuple that \<open>__init__\<close> sets, it raises nothing and
  sets the attribute \<open>rois\<close> to \<open>None\<close>, and with it the lineage and the label
  maps of every region.
\<close>

theorem clear_keeps_durable_state_counterexample:
  "durable_in_memory example_position = Some [(one_cell_lineage, [Some [[1, 1]]])]
   \<and> snd (clear example_position) = None
   \<and> durable_in_memory (fst (clear example_position)) = None"
  by (simp add: durable_in_memory_def clear_def in_pickle_skip_def example_position_def
      tracked_roi_def)

text \<open>
  C9, amended.  Let the position's \<open>_pickle_skip\<close> be a tuple of names that
  names itself, as \<open>__init__\<close> sets it.  Then \<open>clear\<close> raises nothing and sets
  every attribute to \<open>None\<close> except those the tuple names, which it leaves
  alone; no attribute is added, removed or moved.  The regions, hence their image
  and mask history and also their lineage and label maps, are no longer in memory.
  They remain loadable: \<open>__getstate__\<close> gives the state with the named attributes
  stored as \<open>None\<close>, and loading that state into the cleared position gives the
  position back, lineage and label maps included.
\<close>

theorem clear_then_load_restores:
  assumes d: "distinct (map fst p)"
    and skip: "map_of p ''_pickle_skip'' = Some (PyTuple ks)"
    and self: "''_pickle_skip'' \<in> set ks"
  shows "clear p = (map (\<lambda>kv. (fst kv, if fst kv \<in> set ks then snd kv else PyNone)) p, None)
   \<and> getstate p = Inr (map (\<lambda>kv. (fst kv, if fst kv \<in> set ks then PyNone else snd kv)) p)
   \<and> load (map (\<lambda>kv. (fst kv, if fst kv \<in> set ks then PyNone else snd kv)) p)
           (map (\<lambda>kv. (fst kv, if fst kv \<in> set ks then snd kv else PyNone)) p)
       = (p, None)
   \<and> (''rois'' \<notin> set ks \<longrightarrow> map_of p ''rois'' \<noteq> None \<longrightarrow>
         durable_in_memory (map (\<lambda>kv. (fst kv, if fst kv \<in> set ks then snd kv else PyNone)) p)
           = None)"
proof -
  define state where
    "state = map (\<lambda>kv. (fst kv, if fst kv \<in> set ks then PyNone else snd kv)) p"
  define cleared where
    "cleared = map (\<lambda>kv. (fst kv, if fst kv \<in> set ks then snd kv else PyNone)) p"
  have keys_s: "map fst state = map fst p" and keys_c: "map fst cleared = map fst p"
    by (simp_all add: state_def cleared_def comp_def)
  have look_s: "map_of state k = map_option (\<lambda>v. if k \<in> set ks then PyNone else v) (map_of p k)"
    for k
    unfolding state_def
    by (rule map_of_map_keyed [where h = "\<lambda>k v. if k \<in> set ks then PyNone else v"])
  have look_c: "map_of cleared k = map_option (\<lambda>v. if k \<in> set ks then v else PyNone) (map_of p k)"
    for k
    unfolding cleared_def
    by (rule map_of_map_keyed [where h = "\<lambda>k v. if k \<in> set ks then v else PyNone"])
  have ds: "distinct (map fst state)" and dc: "distinct (map fst cleared)"
    using d keys_s keys_c by simp_all
  have skip_c: "map_of cleared ''_pickle_skip'' = Some (PyTuple ks)"
    using skip self by (simp add: look_c)
  have "fst ` set state = fst ` set cleared"
    using keys_s keys_c by (metis set_map)
  then have sub: "fst ` set state \<subseteq> fst ` set cleared" by simp
  have loaded: "load state cleared =
      (map (\<lambda>kv. (fst kv, if fst kv \<notin> set ks \<and> fst kv \<in> fst ` set state
                             then the (map_of state (fst kv)) else snd kv)) cleared, None)"
    by (rule load_intact [OF ds dc skip_c self sub])
  have restored: "map (\<lambda>kv. (fst kv, if fst kv \<notin> set ks \<and> fst kv \<in> fst ` set state
                             then the (map_of state (fst kv)) else snd kv)) cleared = p"
  proof -
    have "map (\<lambda>kv. (fst kv, if fst kv \<notin> set ks \<and> fst kv \<in> fst ` set state
                             then the (map_of state (fst kv)) else snd kv)) cleared
        = map (\<lambda>kv. (fst kv, if fst kv \<notin> set ks \<and> fst kv \<in> fst ` set state
                             then the (map_of state (fst kv)) else
                               (if fst kv \<in> set ks then snd kv else PyNone))) p"
      by (simp add: cleared_def comp_def)
    also have "\<dots> = p"
    proof (rule map_idI)
      fix kv assume kv: "kv \<in> set p"
      obtain k v where e: "kv = (k, v)" by (cases kv) auto
      have found: "map_of p k = Some v"
        using d kv e by simp
      have "k \<in> fst ` set state"
        using kv e keys_s by (metis fst_conv image_eqI set_map)
      then show "(fst kv, if fst kv \<notin> set ks \<and> fst kv \<in> fst ` set state
                             then the (map_of state (fst kv)) else
                               (if fst kv \<in> set ks then snd kv else PyNone)) = kv"
        by (simp add: e look_s found)
    qed
    finally show ?thesis .
  qed
  have c: "clear p = (cleared, None)"
    unfolding cleared_def by (rule clear_intact [OF d skip self])
  have g: "getstate p = Inr state"
    unfolding state_def by (rule getstate_intact [OF d skip])
  have l: "load state cleared = (p, None)"
    using loaded restored by simp
  have gone: "''rois'' \<notin> set ks \<longrightarrow> map_of p ''rois'' \<noteq> None \<longrightarrow>
                durable_in_memory cleared = None"
    by (auto simp: durable_in_memory_def look_c)
  show ?thesis
    using c g l gone unfolding state_def cleared_def by blast
qed

theorem clear_then_load_restores_witness:
  "distinct (map fst example_position)
   \<and> map_of example_position ''_pickle_skip''
       = Some (PyTuple [''reader'', ''models'', ''_pickle_skip''])
   \<and> ''_pickle_skip'' \<in> set [''reader'', ''models'', ''_pickle_skip'']
   \<and> ''rois'' \<notin> set [''reader'', ''models'', ''_pickle_skip'']
   \<and> map_of example_position ''rois'' \<noteq> None
   \<and> clear example_position =
       ([(''position_nb'', PyNone), (''reader'', PyObject 0), (''models'', PyObject 1),
         (''rois'', PyNone), (''_preprocessed'', PyNone),
         (''_pickle_skip'', PyTuple [''reader'', ''models'', ''_pickle_skip''])], None)
   \<and> getstate example_position =
       Inr [(''position_nb'', PyInt 0), (''reader'', PyNone), (''models'', PyNone),
            (''rois'', PyRois [tracked_roi]), (''_preprocessed'', PyBool True),
            (''_pickle_skip'', PyNone)]
   \<and> load [(''position_nb'', PyInt 0), (''reader'', PyNone), (''models'', PyNone),
            (''rois'', PyRois [tracked_roi]), (''_preprocessed'', PyBool True),
            (''_pickle_skip'', PyNone)]
           [(''position_nb'', PyNone), (''reader'', PyObject 0), (''models'', PyObject 1),
            (''rois'', PyNone), (''_preprocessed'', PyNone),
            (''_pickle_skip'', PyTuple [''reader'', ''models'', ''_pickle_skip''])]
       = (example_position, None)
   \<and> durable_in_memory
         ([(''position_nb'', PyNone), (''reader'', PyObject 0), (''models'', PyObject 1),
           (''rois'', PyNone), (''_preprocessed'', PyNone),
           (''_pickle_skip'', PyTuple [''reader'', ''models'', ''_pickle_skip''])]
          :: real position)
       = None"
proof -
  have h1: "distinct (map fst example_position)"
    by (simp add: example_position_def)
  have h2: "map_of example_position ''_pickle_skip''
              = Some (PyTuple [''reader'', ''models'', ''_pickle_skip''])"
    by (simp add: example_position_def)
  have h3: "''_pickle_skip'' \<in> set [''reader'', ''models'', ''_pickle_skip'']"
    by simp
  have h4: "''rois'' \<notin> set [''reader'', ''models'', ''_pickle_skip'']"
    by simp
  have h5: "map_of example_position ''rois'' \<noteq> None"
    by (simp add: example_position_def)
  have e1: "map (\<lambda>kv. (fst kv, if fst kv \<in> set [''reader'', ''models'', ''_pickle_skip'']
                                 then snd kv else PyNone)) example_position
          = [(''position_nb'', PyNone), (''reader'', PyObject 0), (''models'', PyObject 1),
             (''rois'', PyNone), (''_preprocessed'', PyNone),
             (''_pickle_skip'', PyTuple [''reader'', ''models'', ''_pickle_skip''])]"
    by (simp add: example_position_def)
  have e2: "map (\<lambda>kv. (fst kv, if fst kv \<in> set [''reader'', ''models'', ''_pickle_skip'']
                                 then PyNone else snd kv)) example_position
          = [(''position_nb'', PyInt 0), (''reader'', PyNone), (''models'', PyNone),
             (''rois'', PyRois [tracked_roi]), (''_preprocessed'', PyBool True),
             (''_pickle_skip'', PyNone)]"
    by (simp add: example_position_def)
  note t = clear_then_load_restores [OF h1 h2 h3, unfolded e1 e2]
  have t1: "clear example_position =
       ([(''position_nb'', PyNone), (''reader'', PyObject 0), (''models'', PyObject 1),
         (''rois'', PyNone), (''_preprocessed'', PyNone),
         (''_pickle_skip'', PyTuple [''reader'', ''models'', ''_pickle_skip''])], None)"
    using t by blast
  have t2: "getstate example_position =
       Inr [(''position_nb'', PyInt 0), (''reader'', PyNone), (''models'', PyNone),
            (''rois'', PyRois [tracked_roi]), (''_preprocessed'', PyBool True),
            (''_pickle_skip'', PyNone)]"
    using t by blast
  have t3: "load [(''position_nb'', PyInt 0), (''reader'', PyNone), (''models'', PyNone),
            (''rois'', PyRois [tracked_roi]), (''_preprocessed'', PyBool True),
            (''_pickle_skip'', PyNone)]
           [(''position_nb'', PyNone), (''reader'', PyObject 0), (''models'', PyObject 1),
            (''rois'', PyNone), (''_preprocessed'', PyNone),
            (''_pickle_skip'', PyTuple [''reader'', ''models'', ''_pickle_skip''])]
       = (example_position, None)"
    using t by blast
  have t4: "durable_in_memory
         ([(''position_nb'', PyNone), (''reader'', PyObject 0), (''models'', PyObject 1),
           (''rois'', PyNone), (''_preprocessed'', PyNone),
           (''_pickle_skip'', PyTuple [''reader'', ''models'', ''_pickle_skip''])]
          :: real position)
       = None"
    using t h4 h5 by blast
  show ?thesis
    by (intro conjI) (rule h1 h2 h3 h4 h5 t1 t2 t3 t4)+
qed

section \<open>Drift correction fails soft\<close>

lemma best_shift_None: "best_shift score cs = None \<longleftrightarrow> cs = []"
  by (induction cs) (auto split: option.splits)

lemma best_shift_Some:
  "best_shift score cs = Some b \<Longrightarrow> b \<in> set cs \<and> (\<forall>c\<in>set cs. score c \<le> score b)"
proof (induction cs arbitrary: b)
  case Nil
  then show ?case by simp
next
  case (Cons a cs)
  show ?case
  proof (cases "best_shift score cs")
    case None
    then have "cs = []" by (simp add: best_shift_None)
    with Cons.prems show ?thesis by simp
  next
    case (Some b')
    from Cons.IH [OF Some] have "b' \<in> set cs" and "\<forall>c\<in>set cs. score c \<le> score b'"
      by simp_all
    with Cons.prems Some show ?thesis
      by (auto split: if_splits)
  qed
qed

lemma drift_of_frame_low:
  assumes "\<forall>c\<in>set shifts. score frame c \<le> min_confidence"
  shows "drift_of_frame score shifts min_confidence frame = ((0, 0), True)"
proof (cases "best_shift (score frame) shifts")
  case None
  then show ?thesis by (simp add: drift_of_frame_def)
next
  case (Some b)
  then have "b \<in> set shifts" using best_shift_Some by blast
  with assms have "\<not> min_confidence < score frame b" by (simp add: not_less)
  with Some show ?thesis by (simp add: drift_of_frame_def)
qed

lemma drift_of_frame_confident:
  assumes "c \<in> set shifts" and "min_confidence < score frame c"
  shows "\<exists>b\<in>set shifts. drift_of_frame score shifts min_confidence frame = (b, False)
           \<and> min_confidence < score frame b
           \<and> (\<forall>c'\<in>set shifts. score frame c' \<le> score frame b)"
proof (cases "best_shift (score frame) shifts")
  case None
  with assms show ?thesis by (simp add: best_shift_None)
next
  case (Some b)
  then have b: "b \<in> set shifts" "\<forall>c'\<in>set shifts. score frame c' \<le> score frame b"
    using best_shift_Some [OF Some] by simp_all
  with assms have "min_confidence < score frame b" by fastforce
  with Some b show ?thesis by (auto simp: drift_of_frame_def)
qed

text \<open>
  C7.  The drift corrector yields a translation for every frame of the batch, and
  for a frame on which no candidate shift scores above the minimal confidence the
  translation is zero in both coordinates, the frame is resampled by the zero
  translation and its warning flag is set; the result is a value, not an error.
\<close>

theorem driftcorr_fails_soft:
  assumes "i < length frames"
    and "\<forall>c\<in>set shifts. score (frames ! i) c \<le> min_confidence"
  shows "case driftcorr score shifts min_confidence resample frames of
           (frames', (xs, ys), warnings) \<Rightarrow>
             length frames' = length frames \<and> length xs = length frames
             \<and> length ys = length frames \<and> length warnings = length frames
             \<and> xs ! i = 0 \<and> ys ! i = 0 \<and> warnings ! i
             \<and> frames' ! i = resample (0, 0) (frames ! i)"
  using assms(1) drift_of_frame_low [of shifts score "frames ! i" min_confidence, OF assms(2)]
  by (simp add: driftcorr_def Let_def)

theorem driftcorr_fails_soft_witness:
  "(0::nat) < length [()]
   \<and> list_all (\<lambda>c. (\<lambda>f c. 1 / 10) ([()] ! 0) c \<le> (1 / 2 :: real)) [(1 :: int, 0 :: int), (0, 1)]
   \<and> driftcorr (\<lambda>f c. 1 / 10) [(1, 0), (0, 1)] (1 / 2) (\<lambda>d f. f) [()]
       = ([()], ([0], [0]), [True])"
proof -
  have h1: "(0::nat) < length [()]" by simp
  have h2: "\<forall>c\<in>set [(1, 0), (0, 1)]. (\<lambda>f c. 1 / 10) ([()] ! 0) c \<le> (1 / 2 :: real)"
    by simp
  show ?thesis
    using h1 h2
      driftcorr_fails_soft [of 0 "[()]" "[(1, 0), (0, 1)]" "\<lambda>f c. 1 / 10" "1 / 2" "\<lambda>d f. f"]
    by (simp add: driftcorr_def drift_of_frame_def)
qed

section \<open>How the lineage grows\<close>

lemma length_extend_frames: "length (extend_frames f cn) = max (length cn) (Suc f)"
  by (simp add: extend_frames_def max_def)

lemma nth_extend_frames:
  "g < length (extend_frames f cn) \<Longrightarrow>
     extend_frames f cn ! g = (if g < length cn then cn ! g else [])"
  by (auto simp: extend_frames_def nth_append)

lemma cells_at_extend:
  "cells_at (l\<lparr>cellnumbers := extend_frames f (cellnumbers l)\<rparr>) g = cells_at l g"
  by (auto simp: cells_at_def length_extend_frames nth_extend_frames)

lemma next_cell_create_cell: "next_cell (create_cell f par n l) = Suc (next_cell l)"
  by (simp add: create_cell_def Let_def)

lemma cells_at_create_cell:
  "cells_at (create_cell f par n l) g =
     (if g = f then cells_at l f @ [(next_cell l, n, par)] else cells_at l g)"
  by (auto simp: create_cell_def Let_def cells_at_def length_extend_frames nth_extend_frames)

lemma cell_values_create_cell: "cell_values (create_cell f par n l) = cell_values l"
  by (simp add: create_cell_def Let_def)

lemma fold_create_cell:
  "next_cell (fold (create_cell f par) attrib l) = next_cell l + length attrib
   \<and> cells_at (fold (create_cell f par) attrib l) g =
       (if g = f
        then cells_at l f @ map (\<lambda>k. (next_cell l + k, attrib ! k, par)) [0..<length attrib]
        else cells_at l g)"
proof (induction attrib arbitrary: l)
  case Nil
  then show ?case by simp
next
  case (Cons a attrib)
  show ?case
    by (simp add: Cons.IH next_cell_create_cell cells_at_create_cell map_upt_Suc del: upt_Suc)
qed

lemma next_cell_update:
  "next_cell (update cell f attrib poles l) = next_cell l + length attrib"
  by (simp add: update_def fold_create_cell)

lemma cells_at_update:
  "cells_at (update cell f attrib poles l) g =
     (if g = f
      then cells_at l f @ map (\<lambda>k. (next_cell l + k, attrib ! k, cell)) [0..<length attrib]
      else cells_at l g)"
  by (simp add: update_def fold_create_cell cells_at_extend)

lemma fold_update_orphans:
  "next_cell (fold (\<lambda>c. update None f [c] (ps c)) cs l) = next_cell l + length cs
   \<and> cells_at (fold (\<lambda>c. update None f [c] (ps c)) cs l) g =
       (if g = f then cells_at l f @ map (\<lambda>k. (next_cell l + k, cs ! k, None)) [0..<length cs]
        else cells_at l g)"
proof (induction cs arbitrary: l)
  case Nil
  then show ?case by simp
next
  case (Cons c cs)
  show ?case
    by (simp add: Cons.IH next_cell_update cells_at_update map_upt_Suc del: upt_Suc)
qed

lemma map_upt_index:
  "map (\<lambda>k. (a + k, [0..<n] ! k, x)) [0..<n] = map (\<lambda>k. (a + k, k, x)) [0..<n]"
  by (rule map_cong) simp_all

text \<open>
  C5.  When the requested frame has a mask entry from which the poles helper
  returns, and the frame is 0 or the previous frame has no tracked cell, the call
  returns \<open>None\<close> for the batch and raises nothing; it calls the lineage update
  with no parent once per connected component the helper found, so that the frame
  gains exactly one orphan entry per component, each with an id of its own taken
  from the counter, and the other frames, the images and the masks stay as they
  were.
\<close>

theorem get_tracking_inputs_no_previous_cells:
  assumes "f = requested_frame r frame_arg"
    and "f < length (seg_stack r)"
    and "getpoles (seg_stack r ! f) = Some poles"
    and "f = 0 \<or> cells_at (lineage r) (f - 1) = []"
  shows "\<exists>r'. get_tracking_inputs getpoles compile_inputs r frame_arg = (r', Inr None)
           \<and> lineage r' = fold (\<lambda>c. update None f [c] [poles ! c]) [0..<length poles] (lineage r)
           \<and> cells_at (lineage r') f =
               cells_at (lineage r) f
                 @ map (\<lambda>c. (next_cell (lineage r) + c, c, None)) [0..<length poles]
           \<and> next_cell (lineage r') = next_cell (lineage r) + length poles
           \<and> (\<forall>g. g \<noteq> f \<longrightarrow> cells_at (lineage r') g = cells_at (lineage r) g)
           \<and> img_stack r' = img_stack r \<and> seg_stack r' = seg_stack r"
proof -
  have cond: "f = 0 \<or> length (cellnumbers (lineage r)) < f
                \<or> length (cellnumbers (lineage r) ! (f - 1)) = 0"
    using assms(4) by (cases "f = 0") (auto simp: cells_at_def split: if_splits)
  let ?l = "fold (\<lambda>c. update None f [c] [poles ! c]) [0..<length poles] (lineage r)"
  have run: "get_tracking_inputs getpoles compile_inputs r frame_arg
               = (r\<lparr>lineage := ?l\<rparr>, Inr None)"
    using assms(1,2,3) cond by (simp add: get_tracking_inputs_def Let_def)
  have grown: "next_cell ?l = next_cell (lineage r) + length poles"
    "\<And>g. cells_at ?l g =
       (if g = f then cells_at (lineage r) f
                       @ map (\<lambda>k. (next_cell (lineage r) + k, k, None)) [0..<length poles]
        else cells_at (lineage r) g)"
    using fold_update_orphans [of f "\<lambda>c. [poles ! c]" "[0..<length poles]" "lineage r"]
    by (simp_all add: map_upt_index)
  show ?thesis
    using run grown by simp
qed

theorem get_tracking_inputs_no_previous_cells_witness:
  "0 = requested_frame one_mask_roi (Some 0)
   \<and> 0 < length (seg_stack one_mask_roi)
   \<and> cells_at (lineage one_mask_roi) 0 = []
   \<and> get_tracking_inputs (\<lambda>m. Some [7 :: nat, 8]) (\<lambda>r f. (None :: nat option))
        one_mask_roi (Some 0)
       = (one_mask_roi\<lparr>lineage :=
            \<lparr>cellnumbers = [[(0, 0, None), (1, 1, None)]], next_cell = 2,
             cell_values = Map.empty\<rparr>\<rparr>, Inr None)
   \<and> (\<exists>r'. get_tracking_inputs (\<lambda>m. Some [7 :: nat, 8]) (\<lambda>r f. (None :: nat option))
               one_mask_roi (Some 0) = (r', Inr None)
           \<and> lineage r' = fold (\<lambda>c. update None 0 [c] [[7 :: nat, 8] ! c]) [0..<length [7 :: nat, 8]]
                             (lineage one_mask_roi)
           \<and> cells_at (lineage r') 0 =
               cells_at (lineage one_mask_roi) 0
                 @ map (\<lambda>c. (next_cell (lineage one_mask_roi) + c, c, None))
                     [0..<length [7 :: nat, 8]]
           \<and> next_cell (lineage r') = next_cell (lineage one_mask_roi) + length [7 :: nat, 8]
           \<and> (\<forall>g. g \<noteq> 0 \<longrightarrow> cells_at (lineage r') g = cells_at (lineage one_mask_roi) g)
           \<and> img_stack r' = img_stack one_mask_roi \<and> seg_stack r' = seg_stack one_mask_roi)"
proof -
  have h1: "0 = requested_frame one_mask_roi (Some 0)"
    by (simp add: requested_frame_def)
  have h2: "0 < length (seg_stack one_mask_roi)"
    by (simp add: one_mask_roi_def)
  have h3: "cells_at (lineage one_mask_roi) 0 = []"
    by (simp add: one_mask_roi_def empty_lineage_def cells_at_def)
  have h4: "(0::nat) = 0 \<or> cells_at (lineage one_mask_roi) (0 - 1) = []"
    by simp
  have run: "get_tracking_inputs (\<lambda>m. Some [7 :: nat, 8]) (\<lambda>r f. (None :: nat option))
               one_mask_roi (Some 0)
             = (one_mask_roi\<lparr>lineage :=
                  \<lparr>cellnumbers = [[(0, 0, None), (1, 1, None)]], next_cell = 2,
                   cell_values = Map.empty\<rparr>\<rparr>, Inr None)"
    by (simp add: get_tracking_inputs_def requested_frame_def one_mask_roi_def
        empty_lineage_def upt_rec update_def create_cell_def extend_frames_def Let_def)
  note orphans = get_tracking_inputs_no_previous_cells
    [where f = 0 and r = one_mask_roi and frame_arg = "Some 0"
       and getpoles = "\<lambda>m. Some [7 :: nat, 8]" and poles = "[7, 8]"
       and compile_inputs = "\<lambda>r f. (None :: nat option)", OF h1 h2 refl h4]
  show ?thesis
    by (intro conjI) (rule h1 h2 h3 run orphans)+
qed

section \<open>Divisions\<close>










lemma counter_ok_cells_at:
  "counter_ok l \<Longrightarrow> \<forall>e\<in>set (cells_at l f). cell_id e < next_cell l"
  by (fastforce simp: counter_ok_def cells_at_def list_all_iff dest: nth_mem)

lemma counter_ok_iff:
  "counter_ok l \<longleftrightarrow> (\<forall>g. \<forall>e\<in>set (cells_at l g). cell_id e < next_cell l)"
proof
  assume "counter_ok l"
  then show "\<forall>g. \<forall>e\<in>set (cells_at l g). cell_id e < next_cell l"
    using counter_ok_cells_at by blast
next
  assume a: "\<forall>g. \<forall>e\<in>set (cells_at l g). cell_id e < next_cell l"
  show "counter_ok l"
    unfolding counter_ok_def list_all_iff
  proof (intro ballI)
    fix cells e assume "cells \<in> set (cellnumbers l)" and e: "e \<in> set cells"
    then obtain g where "g < length (cellnumbers l)" "cellnumbers l ! g = cells"
      by (auto simp: in_set_conv_nth)
    then have "cells_at l g = cells" by (simp add: cells_at_def)
    with a e show "cell_id e < next_cell l" by blast
  qed
qed

lemma counter_ok_update: "counter_ok l \<Longrightarrow> counter_ok (update cell f attrib poles l)"
  unfolding counter_ok_iff
proof (intro allI ballI)
  fix g e
  assume a: "\<forall>g. \<forall>e\<in>set (cells_at l g). cell_id e < next_cell l"
    and e: "e \<in> set (cells_at (update cell f attrib poles l) g)"
  show "cell_id e < next_cell (update cell f attrib poles l)"
  proof (cases "e \<in> set (cells_at l g)")
    case True
    with a have "cell_id e < next_cell l" by blast
    then show ?thesis by (simp add: next_cell_update)
  next
    case False
    with e have "e \<in> set (map (\<lambda>k. (next_cell l + k, attrib ! k, cell)) [0..<length attrib])"
      by (auto simp: cells_at_update split: if_splits)
    then show ?thesis by (auto simp: next_cell_update)
  qed
qed







section \<open>Tiling and stitching\<close>

lemma length_write_window: "length (write_window c t wy wx) = length c"
  by (simp add: write_window_def)

lemma row_length_write_window:
  "i < length c \<Longrightarrow> length (write_window c t wy wx ! i) = length (c ! i)"
  by (simp add: write_window_def)

lemma nth_write_window:
  "i < length c \<Longrightarrow> j < length (c ! i) \<Longrightarrow>
     write_window c t wy wx ! i ! j =
       (if fst wy \<le> i \<and> i < snd wy \<and> fst wx \<le> j \<and> j < snd wx
        then t ! (i - fst wy) ! (j - fst wx) else c ! i ! j)"
  by (simp add: write_window_def)

lemma fold_write_shape:
  "length (fold (\<lambda>(tile, wy, wx) canvas. write_window canvas tile wy wx) ws c) = length c
   \<and> (\<forall>i<length c.
         length (fold (\<lambda>(tile, wy, wx) canvas. write_window canvas tile wy wx) ws c ! i)
           = length (c ! i))"
proof (induction ws arbitrary: c)
  case Nil
  then show ?case by simp
next
  case (Cons w ws)
  obtain t wy wx where w: "w = (t, wy, wx)" by (cases w) auto
  show ?case
    using Cons.IH [of "write_window c t wy wx"]
    by (simp add: w length_write_window row_length_write_window)
qed

lemma window_count_iff:
  assumes "0 < (t::nat)"
  shows "k < (n + t - 1) div t \<longleftrightarrow> k * t < n"
proof -
  have "k < (n + t - 1) div t \<longleftrightarrow> Suc k \<le> (n + t - 1) div t" by auto
  also have "\<dots> \<longleftrightarrow> Suc k * t \<le> n + t - 1"
    using assms by (simp add: less_eq_div_iff_mult_less_eq)
  also have "\<dots> \<longleftrightarrow> k * t < n"
    using assms by auto
  finally show ?thesis .
qed

lemma window_locs_mem:
  assumes "0 < t" and "w \<in> set (window_locs n t)"
  shows "fst w < snd w \<and> snd w \<le> n \<and> snd w \<le> fst w + t"
proof -
  from assms(2) obtain k where k: "k < (n + t - 1) div t" "w = (k * t, min n (k * t + t))"
    by (auto simp: window_locs_def)
  from k(1) have "k * t < n" using window_count_iff [OF assms(1)] by simp
  with k(2) assms(1) show ?thesis by simp
qed

lemma window_locs_cover:
  assumes "0 < t" and "i < n"
  shows "\<exists>w\<in>set (window_locs n t). fst w \<le> i \<and> i < snd w"
proof -
  let ?k = "i div t"
  have le: "?k * t \<le> i" by simp
  have lt: "i < ?k * t + t"
    using assms(1) by (metis add.commute dividend_less_div_times mult.commute)
  have "?k * t < n" using le assms(2) by (rule le_less_trans)
  then have "?k < (n + t - 1) div t" using window_count_iff [OF assms(1)] by simp
  then have "(?k * t, min n (?k * t + t)) \<in> set (window_locs n t)"
    by (auto simp: window_locs_def)
  moreover have "i < min n (?k * t + t)" using lt assms(2) by simp
  ultimately show ?thesis using le by force
qed

lemma window_locs_empty: "window_locs 0 t = []"
  by (cases "t = 0") (simp_all add: window_locs_def)

lemma window_locs_last:
  assumes "0 < t" and "0 < n"
  shows "window_locs n t \<noteq> [] \<and> snd (last (window_locs n t)) = n"
proof -
  let ?m = "(n + t - 1) div t"
  have "0 * t < n" using assms(2) by simp
  then have pos: "0 < ?m" using window_count_iff [OF assms(1), of 0 n] by simp
  then obtain m' where m': "?m = Suc m'" by (cases ?m) auto
  have "\<not> Suc m' < ?m" using m' by simp
  then have "\<not> Suc m' * t < n" using window_count_iff [OF assms(1), of "Suc m'" n] by simp
  then have ge: "n \<le> m' * t + t" by simp
  have "window_locs n t = map (\<lambda>k. (k * t, min n (k * t + t))) [0..<m'] @ [(m' * t, min n (m' * t + t))]"
    using m' by (simp add: window_locs_def)
  then show ?thesis using ge by simp
qed

lemma nth_crop_window:
  assumes "fst wy \<le> i" "i < snd wy" "fst wx \<le> j" "j < snd wx"
    and "snd wy \<le> fst wy + fst ts" "snd wx \<le> fst wx + snd ts"
  shows "crop_window img ts wy wx ! (i - fst wy) ! (j - fst wx) = img ! i ! j"
  using assms by (simp add: crop_window_def)

lemma shape_crop_window:
  "length (crop_window img ts wy wx) = fst ts
   \<and> (\<forall>row\<in>set (crop_window img ts wy wx). length row = snd ts)"
  by (auto simp: crop_window_def)

lemma crop_window_padding:
  assumes "i < fst ts" "j < snd ts" "\<not> (fst wy + i < snd wy \<and> fst wx + j < snd wx)"
  shows "crop_window img ts wy wx ! i ! j = 0"
  using assms by (auto simp: crop_window_def)

lemma canvas_height:
  assumes "0 < t"
  shows "(if window_locs n t = [] then 0 else snd (last (window_locs n t))) = n"
proof (cases "n = 0")
  case True
  then show ?thesis by (simp add: window_locs_empty)
next
  case False
  then have "0 < n" by simp
  from window_locs_last [OF assms this] show ?thesis by simp
qed

lemma stitch_pic_unfold:
  assumes "length x = length wys * length wxs"
    and "list_all tile_fits (zip x (List.product wys wxs))"
  shows "stitch_pic x wys wxs =
     Inr (fold (\<lambda>(tile, wy, wx) canvas. write_window canvas tile wy wx)
            (zip x (List.product wys wxs))
            (replicate (if wys = [] then 0 else snd (last wys))
               (replicate (if wxs = [] then 0 else snd (last wxs)) 0)))"
  using assms unfolding stitch_pic_def Let_def by simp

lemma zip_covers_right:
  assumes "length xs = length ys" and "y \<in> set ys"
  shows "\<exists>x. (x, y) \<in> set (zip xs ys)"
proof -
  from assms(2) obtain k where "k < length ys" "ys ! k = y"
    by (auto simp: in_set_conv_nth)
  with assms(1) have "(xs ! k, y) \<in> set (zip xs ys)"
    by (auto simp: in_set_zip)
  then show ?thesis ..
qed

lemma rect_row_length: "rect img \<Longrightarrow> i < length img \<Longrightarrow> length (img ! i) = snd (shape img)"
  by (simp add: rect_def list_all_length)

lemma placed_covers:
  assumes th: "0 < th" and tw: "0 < tw"
    and len: "length x = length (window_locs H th) * length (window_locs W tw)"
    and i: "i < H" and j: "j < W"
  shows "\<exists>p\<in>set (zip x (List.product (window_locs H th) (window_locs W tw))).
           fst (fst (snd p)) \<le> i \<and> i < snd (fst (snd p))
           \<and> fst (snd (snd p)) \<le> j \<and> j < snd (snd (snd p))"
proof -
  from window_locs_cover [OF th i] obtain wy where
    wy: "wy \<in> set (window_locs H th)" "fst wy \<le> i" "i < snd wy" by auto
  from window_locs_cover [OF tw j] obtain wx where
    wx: "wx \<in> set (window_locs W tw)" "fst wx \<le> j" "j < snd wx" by auto
  have mem: "(wy, wx) \<in> set (List.product (window_locs H th) (window_locs W tw))"
    using wy(1) wx(1) by simp
  have "length x = length (List.product (window_locs H th) (window_locs W tw))"
    using len by simp
  from zip_covers_right [OF this mem] obtain t where
    "(t, wy, wx) \<in> set (zip x (List.product (window_locs H th) (window_locs W tw)))" ..
  then show ?thesis
    using wy(2,3) wx(2,3) by (intro bexI [of _ "(t, wy, wx)"]) simp_all
qed

lemma fold_write_agree:
  assumes "\<forall>p\<in>set ws. \<forall>i j.
              fst (fst (snd p)) \<le> i \<and> i < snd (fst (snd p))
              \<and> fst (snd (snd p)) \<le> j \<and> j < snd (snd (snd p))
              \<longrightarrow> fst p ! (i - fst (fst (snd p))) ! (j - fst (snd (snd p))) = g i j"
    and "i < length c" and "j < length (c ! i)"
    and "c ! i ! j = g i j
         \<or> (\<exists>p\<in>set ws. fst (fst (snd p)) \<le> i \<and> i < snd (fst (snd p))
                         \<and> fst (snd (snd p)) \<le> j \<and> j < snd (snd (snd p)))"
  shows "fold (\<lambda>(tile, wy, wx) canvas. write_window canvas tile wy wx) ws c ! i ! j = g i j"
  using assms
proof (induction ws arbitrary: c)
  case Nil
  then show ?case by simp
next
  case (Cons w ws)
  obtain t wy wx where w: "w = (t, wy, wx)" by (cases w) auto
  let ?c = "write_window c t wy wx"
  let ?here = "fst wy \<le> i \<and> i < snd wy \<and> fst wx \<le> j \<and> j < snd wx"
  have rest: "\<forall>p\<in>set ws. \<forall>i j.
              fst (fst (snd p)) \<le> i \<and> i < snd (fst (snd p))
              \<and> fst (snd (snd p)) \<le> j \<and> j < snd (snd (snd p))
              \<longrightarrow> fst p ! (i - fst (fst (snd p))) ! (j - fst (snd (snd p))) = g i j"
    using Cons.prems(1) by simp
  have i: "i < length ?c" and j: "j < length (?c ! i)"
    using Cons.prems(2,3) by (simp_all add: length_write_window row_length_write_window)
  have here: "?here \<Longrightarrow> t ! (i - fst wy) ! (j - fst wx) = g i j"
    using Cons.prems(1) by (simp add: w)
  have first: "?c ! i ! j = (if ?here then t ! (i - fst wy) ! (j - fst wx) else c ! i ! j)"
    by (rule nth_write_window [OF Cons.prems(2,3)])
  have next_step: "?c ! i ! j = g i j
         \<or> (\<exists>p\<in>set ws. fst (fst (snd p)) \<le> i \<and> i < snd (fst (snd p))
                         \<and> fst (snd (snd p)) \<le> j \<and> j < snd (snd (snd p)))"
  proof (cases ?here)
    case True
    with first here show ?thesis by simp
  next
    case False
    with first have same: "?c ! i ! j = c ! i ! j" by simp
    from Cons.prems(4) False show ?thesis
      unfolding same by (auto simp: w)
  qed
  have "fold (\<lambda>(tile, wy, wx) canvas. write_window canvas tile wy wx) ws ?c ! i ! j = g i j"
    by (rule Cons.IH [OF rest i j next_step])
  then show ?case by (simp add: w)
qed

lemma stitch_pic_valid:
  assumes r: "rect img" and th: "0 < th" and tw: "0 < tw"
    and len: "length x = length (window_locs (length img) th)
                          * length (window_locs (snd (shape img)) tw)"
    and fits: "list_all tile_fits
                 (zip x (List.product (window_locs (length img) th)
                                      (window_locs (snd (shape img)) tw)))"
    and agree: "\<forall>p\<in>set (zip x (List.product (window_locs (length img) th)
                                      (window_locs (snd (shape img)) tw))).
                  \<forall>i j. fst (fst (snd p)) \<le> i \<and> i < snd (fst (snd p))
                        \<and> fst (snd (snd p)) \<le> j \<and> j < snd (snd (snd p))
                    \<longrightarrow> fst p ! (i - fst (fst (snd p))) ! (j - fst (snd (snd p))) = img ! i ! j"
  shows "stitch_pic x (window_locs (length img) th) (window_locs (snd (shape img)) tw) = Inr img"
proof -
  define H where "H = length img"
  define W where "W = snd (shape img)"
  define placed where "placed = zip x (List.product (window_locs H th) (window_locs W tw))"
  define canvas where "canvas = replicate H (replicate W (0::'a))"
  define res where
    "res = fold (\<lambda>(tile, wy, wx) canvas. write_window canvas tile wy wx) placed canvas"
  have stitched: "stitch_pic x (window_locs H th) (window_locs W tw) = Inr res"
    using stitch_pic_unfold [of x "window_locs H th" "window_locs W tw"] len fits
    unfolding res_def placed_def canvas_def H_def W_def
    by (simp only: canvas_height [OF th] canvas_height [OF tw])
  have len_res: "length res = H"
    using fold_write_shape [of placed canvas] by (simp add: res_def canvas_def)
  have row_res: "length (res ! i) = W" if "i < H" for i
    using fold_write_shape [of placed canvas] that by (simp add: res_def canvas_def)
  have cell: "res ! i ! j = img ! i ! j" if i: "i < H" and j: "j < W" for i j
  proof -
    have len': "length x = length (window_locs H th) * length (window_locs W tw)"
      using len by (simp add: H_def W_def)
    have cov: "\<exists>p\<in>set placed. fst (fst (snd p)) \<le> i \<and> i < snd (fst (snd p))
                 \<and> fst (snd (snd p)) \<le> j \<and> j < snd (snd (snd p))"
      unfolding placed_def by (rule placed_covers [OF th tw len' i j])
    have ag: "\<forall>p\<in>set placed. \<forall>i j. fst (fst (snd p)) \<le> i \<and> i < snd (fst (snd p))
                        \<and> fst (snd (snd p)) \<le> j \<and> j < snd (snd (snd p))
                    \<longrightarrow> fst p ! (i - fst (fst (snd p))) ! (j - fst (snd (snd p))) = img ! i ! j"
      using agree unfolding placed_def H_def W_def .
    have ci: "i < length canvas" and cj: "j < length (canvas ! i)"
      using i j by (simp_all add: canvas_def)
    show ?thesis
      unfolding res_def
      by (rule fold_write_agree [where g = "\<lambda>i j. img ! i ! j", OF ag ci cj disjI2 [OF cov]])
  qed
  have "res = img"
  proof (rule nth_equalityI)
    show "length res = length img" using len_res by (simp add: H_def)
  next
    fix i assume "i < length res"
    then have i: "i < H" using len_res by simp
    then have i': "i < length img" by (simp add: H_def)
    show "res ! i = img ! i"
    proof (rule nth_equalityI)
      show "length (res ! i) = length (img ! i)"
        using row_res [OF i] rect_row_length [OF r i'] by (simp add: W_def)
    next
      fix j assume "j < length (res ! i)"
      then have "j < W" using row_res [OF i] by simp
      then show "res ! i ! j = img ! i ! j" by (rule cell [OF i])
    qed
  qed
  with stitched show ?thesis by (simp add: H_def W_def)
qed

lemma product_windows_mem:
  assumes "0 < th" and "0 < tw" and "k < length (List.product (window_locs H th) (window_locs W tw))"
  shows "snd (fst (List.product (window_locs H th) (window_locs W tw) ! k))
           \<le> fst (fst (List.product (window_locs H th) (window_locs W tw) ! k)) + th
       \<and> snd (snd (List.product (window_locs H th) (window_locs W tw) ! k))
           \<le> fst (snd (List.product (window_locs H th) (window_locs W tw) ! k)) + tw"
proof -
  define ps where "ps = List.product (window_locs H th) (window_locs W tw)"
  obtain wy wx where w: "ps ! k = (wy, wx)" by (cases "ps ! k") auto
  have prod: "set ps = set (window_locs H th) \<times> set (window_locs W tw)"
    unfolding ps_def by (rule set_product)
  have "k < length ps" using assms(3) by (simp only: ps_def)
  then have "ps ! k \<in> set ps" by (rule nth_mem)
  then have "(wy, wx) \<in> set (window_locs H th) \<times> set (window_locs W tw)"
    unfolding w prod .
  then have wy: "wy \<in> set (window_locs H th)" and wx: "wx \<in> set (window_locs W tw)"
    by blast+
  have "snd wy \<le> fst wy + th"
    using window_locs_mem [OF assms(1) wy] by simp
  moreover have "snd wx \<le> fst wx + tw"
    using window_locs_mem [OF assms(2) wx] by simp
  ultimately have "snd (fst (ps ! k)) \<le> fst (fst (ps ! k)) + th
       \<and> snd (snd (ps ! k)) \<le> fst (snd (ps ! k)) + tw"
    by (simp add: w)
  then show ?thesis unfolding ps_def .
qed

lemma stitch_pic_tiles:
  assumes r: "rect img" and th: "0 < fst ts" and tw: "0 < snd ts"
    and len: "length x = length (List.product (window_locs (length img) (fst ts))
                                              (window_locs (snd (shape img)) (snd ts)))"
    and tiles: "\<forall>k<length x.
        full_size ts (x ! k)
        \<and> (\<forall>i j. valid_in (List.product (window_locs (length img) (fst ts))
                                         (window_locs (snd (shape img)) (snd ts)) ! k) i j
              \<longrightarrow> x ! k ! i ! j =
                    img ! (fst (fst (List.product (window_locs (length img) (fst ts))
                                     (window_locs (snd (shape img)) (snd ts)) ! k)) + i)
                        ! (fst (snd (List.product (window_locs (length img) (fst ts))
                                     (window_locs (snd (shape img)) (snd ts)) ! k)) + j))"
  shows "stitch_pic x (window_locs (length img) (fst ts)) (window_locs (snd (shape img)) (snd ts))
           = Inr img"
proof -
  define ps where "ps = List.product (window_locs (length img) (fst ts))
                                      (window_locs (snd (shape img)) (snd ts))"
  have len': "length x = length ps" using len by (simp add: ps_def)
  have tiles': "\<forall>k<length x. full_size ts (x ! k)
        \<and> (\<forall>i j. valid_in (ps ! k) i j
              \<longrightarrow> x ! k ! i ! j = img ! (fst (fst (ps ! k)) + i) ! (fst (snd (ps ! k)) + j))"
    using tiles unfolding ps_def .
  have bound: "snd (fst (ps ! k)) \<le> fst (fst (ps ! k)) + fst ts
               \<and> snd (snd (ps ! k)) \<le> fst (snd (ps ! k)) + snd ts" if "k < length ps" for k
    unfolding ps_def
    by (rule product_windows_mem [OF th tw that [unfolded ps_def]])
  have elem: "\<exists>k<length ps. p = (x ! k, ps ! k)" if "p \<in> set (zip x ps)" for p
  proof -
    from that obtain n where n: "x ! n = fst p" "ps ! n = snd p" "n < length ps"
      unfolding in_set_zip by blast
    then have "p = (x ! n, ps ! n)" by (simp add: prod_eq_iff)
    with n(3) show ?thesis by blast
  qed
  have fits: "list_all tile_fits (zip x ps)"
    unfolding list_all_iff
  proof
    fix p assume "p \<in> set (zip x ps)"
    from elem [OF this] obtain k where k: "k < length ps" "p = (x ! k, ps ! k)" by blast
    have "k < length x" using k(1) len' by simp
    with tiles' have full: "full_size ts (x ! k)" by blast
    obtain wy wx where w: "ps ! k = (wy, wx)" by (cases "ps ! k") auto
    have by_: "snd wy \<le> fst wy + fst ts" and bx: "snd wx \<le> fst wx + snd ts"
      using bound [OF k(1)] by (simp_all add: w)
    have rows: "length (x ! k) = fst ts" and cols: "\<forall>row\<in>set (x ! k). length row = snd ts"
      using full by (simp_all add: full_size_def list_all_iff)
    have "snd wy - fst wy \<le> length (x ! k)"
      using by_ rows by arith
    moreover have "list_all (\<lambda>r. snd wx - fst wx \<le> length r) (x ! k)"
      unfolding list_all_iff
    proof
      fix row assume "row \<in> set (x ! k)"
      with cols have "length row = snd ts" by blast
      with bx show "snd wx - fst wx \<le> length row" by arith
    qed
    ultimately show "tile_fits p"
      by (simp add: k(2) w tile_fits_def)
  qed
  have agree: "\<forall>p\<in>set (zip x ps).
                  \<forall>i j. fst (fst (snd p)) \<le> i \<and> i < snd (fst (snd p))
                        \<and> fst (snd (snd p)) \<le> j \<and> j < snd (snd (snd p))
                    \<longrightarrow> fst p ! (i - fst (fst (snd p))) ! (j - fst (snd (snd p))) = img ! i ! j"
  proof (intro ballI allI impI)
    fix p i j
    assume p: "p \<in> set (zip x ps)"
      and in_w: "fst (fst (snd p)) \<le> i \<and> i < snd (fst (snd p))
                 \<and> fst (snd (snd p)) \<le> j \<and> j < snd (snd (snd p))"
    from elem [OF p] obtain k where k: "k < length ps" "p = (x ! k, ps ! k)" by blast
    have w: "fst (fst (ps ! k)) \<le> i" "i < snd (fst (ps ! k))"
      "fst (snd (ps ! k)) \<le> j" "j < snd (snd (ps ! k))"
      using in_w by (simp_all add: k(2))
    then have "valid_in (ps ! k) (i - fst (fst (ps ! k))) (j - fst (snd (ps ! k)))"
      by (simp add: valid_in_def)
    moreover have "k < length x" using k(1) len' by simp
    ultimately have "x ! k ! (i - fst (fst (ps ! k))) ! (j - fst (snd (ps ! k)))
                 = img ! (fst (fst (ps ! k)) + (i - fst (fst (ps ! k))))
                       ! (fst (snd (ps ! k)) + (j - fst (snd (ps ! k))))"
      using tiles' by blast
    moreover have "fst (fst (ps ! k)) + (i - fst (fst (ps ! k))) = i"
      "fst (snd (ps ! k)) + (j - fst (snd (ps ! k))) = j"
      using w by simp_all
    ultimately have "x ! k ! (i - fst (fst (ps ! k))) ! (j - fst (snd (ps ! k))) = img ! i ! j"
      by simp
    then show "fst p ! (i - fst (fst (snd p))) ! (j - fst (snd (snd p))) = img ! i ! j"
      by (simp add: k(2))
  qed
  have len2: "length x = length (window_locs (length img) (fst ts))
                          * length (window_locs (snd (shape img)) (snd ts))"
    using len by simp
  show ?thesis
    by (rule stitch_pic_valid [OF r th tw len2 fits [unfolded ps_def] agree [unfolded ps_def]])
qed

lemma create_windows_unfold:
  assumes "create_windows img ts = (x, windows_y, windows_x)"
  shows "windows_y = window_locs (length img) (fst ts)"
    and "windows_x = window_locs (snd (shape img)) (snd ts)"
    and "x = map (\<lambda>p. crop_window img ts (fst p) (snd p)) (List.product windows_y windows_x)"
  using assms by (auto simp: create_windows_def Let_def shape_def case_prod_beta)

lemma full_size_crop_window: "full_size ts (crop_window img ts wy wx)"
  using shape_crop_window [of img ts wy wx] by (simp add: full_size_def list_all_iff)

lemma nth_crop_window_if:
  assumes "i < fst ts" and "j < snd ts"
  shows "crop_window img ts (fst w) (snd w) ! i ! j =
           (if valid_in w i j then img ! (fst (fst w) + i) ! (fst (snd w) + j) else 0)"
  using assms by (simp add: crop_window_def valid_in_def)

lemma valid_in_bound:
  assumes "valid_in w i j"
    and "snd (fst w) \<le> fst (fst w) + th \<and> snd (snd w) \<le> fst (snd w) + tw"
  shows "i < th \<and> j < tw"
  using assms unfolding valid_in_def by arith

text \<open>
  How the region uses the two functions: with \<open>crop_windows\<close> set, the inputs of
  segmentation are the tiles of the cropped and rescaled frame together with
  their windows, and the outputs are stitched with those windows before they are
  thresholded, cropped and filtered.
\<close>

lemma get_segmentation_inputs_windows:
  assumes "crop_windows r"
    and "create_windows (cropscale img) target_size_seg = (x, windows_y, windows_x)"
  shows "get_segmentation_inputs cropscale resize target_size_seg r img =
           (r\<lparr>img_stack := img_stack r @ [cropscale img]\<rparr>, x, Some (windows_y, windows_x))"
  using assms by (simp add: get_segmentation_inputs_def Let_def)

lemma processed_mask_windows:
  assumes "stitch_pic y windows_y windows_x = Inr st"
    and "img_stack r = i0 # imgs"
  shows "processed_mask opencv_areafilt r y (Some (windows_y, windows_x)) =
           Inr (opencv_areafilt (crop_to (shape i0) (binarize st)))"
  using assms by (simp add: processed_mask_def)

text \<open>
  C1.  For a rectangular image and a tile size that is positive in both
  directions, stitching the tiles that tiling produced gives the image back,
  with its dimensions and its content.  There is one tile per pair of windows;
  every tile has the full target size, holds the image's values on the positions
  inside the image and zero on the others (padding).  Stitching reads the valid
  positions only: any batch of full-size tiles that agrees with the produced tiles
  on the valid positions stitches to the same image, whatever its padding holds.
\<close>

theorem stitch_create_windows_identity:
  assumes r: "rect img" and th: "0 < fst target_size" and tw: "0 < snd target_size"
    and cw: "create_windows img target_size = (x, windows_y, windows_x)"
  shows "stitch_pic x windows_y windows_x = Inr img
   \<and> length x = length windows_y * length windows_x
   \<and> (\<forall>k<length x. full_size target_size (x ! k)
         \<and> (\<forall>i<fst target_size. \<forall>j<snd target_size.
               x ! k ! i ! j =
                 (if valid_in (List.product windows_y windows_x ! k) i j
                  then img ! (fst (fst (List.product windows_y windows_x ! k)) + i)
                           ! (fst (snd (List.product windows_y windows_x ! k)) + j)
                  else 0)))
   \<and> (\<forall>x'. length x' = length x
            \<and> (\<forall>k<length x. full_size target_size (x' ! k)
                  \<and> (\<forall>i j. valid_in (List.product windows_y windows_x ! k) i j
                         \<longrightarrow> x' ! k ! i ! j = x ! k ! i ! j))
          \<longrightarrow> stitch_pic x' windows_y windows_x = Inr img)"
proof -
  define ps where "ps = List.product windows_y windows_x"
  note u = create_windows_unfold [OF cw]
  have ps: "ps = List.product (window_locs (length img) (fst target_size))
                              (window_locs (snd (shape img)) (snd target_size))"
    unfolding ps_def u(1) [symmetric] u(2) [symmetric] ..
  have x: "x = map (\<lambda>p. crop_window img target_size (fst p) (snd p)) ps"
    unfolding ps_def by (rule u(3))
  have len: "length x = length ps" by (simp add: x)
  have tile: "x ! k = crop_window img target_size (fst (ps ! k)) (snd (ps ! k))"
    if "k < length ps" for k
    using that by (simp add: x)
  have bound: "snd (fst (ps ! k)) \<le> fst (fst (ps ! k)) + fst target_size
               \<and> snd (snd (ps ! k)) \<le> fst (snd (ps ! k)) + snd target_size"
    if "k < length ps" for k
    unfolding ps by (rule product_windows_mem [OF th tw that [unfolded ps]])
  have entries: "x ! k ! i ! j =
                 (if valid_in (ps ! k) i j
                  then img ! (fst (fst (ps ! k)) + i) ! (fst (snd (ps ! k)) + j) else 0)"
    if "k < length ps" "i < fst target_size" "j < snd target_size" for k i j
    unfolding tile [OF that(1)] by (rule nth_crop_window_if [OF that(2,3)])
  have full: "full_size target_size (x ! k)" if "k < length ps" for k
    unfolding tile [OF that] by (rule full_size_crop_window)
  have any: "stitch_pic x' windows_y windows_x = Inr img"
    if l: "length x' = length x"
      and t: "\<forall>k<length x. full_size target_size (x' ! k)
                  \<and> (\<forall>i j. valid_in (ps ! k) i j \<longrightarrow> x' ! k ! i ! j = x ! k ! i ! j)"
    for x'
  proof -
    have len': "length x' = length ps" using l len by simp
    have tiles: "\<forall>k<length x'. full_size target_size (x' ! k)
        \<and> (\<forall>i j. valid_in (ps ! k) i j
              \<longrightarrow> x' ! k ! i ! j = img ! (fst (fst (ps ! k)) + i) ! (fst (snd (ps ! k)) + j))"
    proof (intro allI impI conjI)
      fix k assume "k < length x'"
      then have k: "k < length ps" and kx: "k < length x" using len' len by simp_all
      show "full_size target_size (x' ! k)" using t kx by blast
      fix i j assume v: "valid_in (ps ! k) i j"
      from valid_in_bound [OF v bound [OF k]] have ij: "i < fst target_size" "j < snd target_size"
        by simp_all
      have "x' ! k ! i ! j = x ! k ! i ! j" using t kx v by blast
      also have "\<dots> = img ! (fst (fst (ps ! k)) + i) ! (fst (snd (ps ! k)) + j)"
        using entries [OF k ij] v by simp
      finally show "x' ! k ! i ! j = img ! (fst (fst (ps ! k)) + i) ! (fst (snd (ps ! k)) + j)" .
    qed
    have "stitch_pic x' (window_locs (length img) (fst target_size))
            (window_locs (snd (shape img)) (snd target_size)) = Inr img"
      by (rule stitch_pic_tiles [OF r th tw len' [unfolded ps] tiles [unfolded ps]])
    then show ?thesis unfolding u(1) [symmetric] u(2) [symmetric] .
  qed
  have own: "stitch_pic x windows_y windows_x = Inr img"
    by (rule any) (simp_all add: full len)
  have count: "length x = length windows_y * length windows_x"
    using len by (simp add: ps_def)
  have made: "\<forall>k<length x. full_size target_size (x ! k)
         \<and> (\<forall>i<fst target_size. \<forall>j<snd target_size.
               x ! k ! i ! j =
                 (if valid_in (ps ! k) i j
                  then img ! (fst (fst (ps ! k)) + i) ! (fst (snd (ps ! k)) + j)
                  else 0))"
    using full entries len by simp
  have others: "\<forall>x'. length x' = length x
            \<and> (\<forall>k<length x. full_size target_size (x' ! k)
                  \<and> (\<forall>i j. valid_in (ps ! k) i j \<longrightarrow> x' ! k ! i ! j = x ! k ! i ! j))
          \<longrightarrow> stitch_pic x' windows_y windows_x = Inr img"
    using any by blast
  show ?thesis
    by (intro conjI own count made [unfolded ps_def] others [unfolded ps_def])
qed

theorem stitch_create_windows_identity_witness:
  "rect [[1, 2, 3], [4, 5, 6], [7, 8, 9 :: int]]
   \<and> 0 < fst (2 :: nat, 2 :: nat) \<and> 0 < snd (2 :: nat, 2 :: nat)
   \<and> create_windows [[1, 2, 3], [4, 5, 6], [7, 8, 9 :: int]] (2, 2) =
       ([[[1, 2], [4, 5]], [[3, 0], [6, 0]], [[7, 8], [0, 0]], [[9, 0], [0, 0]]],
        [(0, 2), (2, 3)], [(0, 2), (2, 3)])
   \<and> stitch_pic [[[1, 2], [4, 5]], [[3, 0], [6, 0]], [[7, 8], [0, 0]], [[9, 0], [0, 0]]]
         [(0, 2), (2, 3)] [(0, 2), (2, 3)]
       = Inr [[1, 2, 3], [4, 5, 6], [7, 8, 9 :: int]]"
proof -
  have h1: "rect [[1, 2, 3], [4, 5, 6], [7, 8, 9 :: int]]"
    by (simp add: rect_def shape_def)
  have h2: "0 < fst (2 :: nat, 2 :: nat)" and h3: "0 < snd (2 :: nat, 2 :: nat)"
    by simp_all
  have h4: "create_windows [[1, 2, 3], [4, 5, 6], [7, 8, 9 :: int]] (2, 2) =
       ([[[1, 2], [4, 5]], [[3, 0], [6, 0]], [[7, 8], [0, 0]], [[9, 0], [0, 0]]],
        [(0, 2), (2, 3)], [(0, 2), (2, 3)])"
    by code_simp
  note identity = stitch_create_windows_identity [OF h1 h2 h3 h4, THEN conjunct1]
  show ?thesis
    by (intro conjI) (rule h1 h2 h3 h4 identity)+
qed

end
